theory Spec2Isabelle
  imports Main
begin

section \<open>The rope of \<^verbatim>\<open>src/rope.h\<close>: data model\<close>

text \<open>
  The rope is a binary tree of \<^verbatim>\<open>RopeNode\<close> structs reached through nullable pointers.
  A pointer is either \<open>Null\<close> or a \<open>Node\<close> with the fields of the struct, in the order
  \<^verbatim>\<open>left, right, height, weight, is_leaf, data\<close>. The array \<^verbatim>\<open>data[512]\<close> together with
  the field \<^verbatim>\<open>length\<close> is the list of the first \<^verbatim>\<open>length\<close> bytes of the array, so the
  field \<^verbatim>\<open>length\<close> is \<open>length (data n)\<close>; the NUL that the source keeps at
  \<^verbatim>\<open>data[length]\<close> is not part of the list. The tree is exclusively owned (no sharing), so
  in-place mutation is the construction of the updated node. \<^verbatim>\<open>size_t\<close> is \<open>nat\<close>: every
  subtraction of the source is written as it stands and, the one named below apart, is
  guarded there; sums stay far
  below \<open>2^64\<close> for byte strings that fit in memory. \<^verbatim>\<open>int\<close> heights are \<open>int\<close>.

  A C function that dereferences a null pointer, or that is handed an offset past the
  end of a leaf (the \<^verbatim>\<open>memmove\<close> length \<^verbatim>\<open>node->length - pos\<close> underflows), has no defined
  result: such a function returns an \<open>option\<close>, and \<open>None\<close> is that undefined behaviour.
\<close>

definition ROPE_NODE_CAPACITY :: nat where
  "ROPE_NODE_CAPACITY = 512"

datatype RopeNode =
    Null
  | Node (left: RopeNode) (right: RopeNode) (height: int) (weight: nat)
         (is_leaf: bool) (data: "char list")

record Rope =
  root :: RopeNode
  total_length :: nat

text \<open>\<^verbatim>\<open>memcpy(dst, src, n)\<close>: the first \<open>n\<close> bytes of \<open>dst\<close> are replaced by those of \<open>src\<close>.\<close>

definition memcpy :: "char list \<Rightarrow> char list \<Rightarrow> nat \<Rightarrow> char list" where
  "memcpy dst src n = take n src @ drop n dst"

text \<open>\<^verbatim>\<open>strlen\<close>: the number of bytes before the first NUL.\<close>

definition strlen :: "char list \<Rightarrow> nat" where
  "strlen str = length (takeWhile (\<lambda>c. c \<noteq> CHR 0x00) str)"

section \<open>Nodes and the balancer\<close>

text \<open>\<^verbatim>\<open>rope_node_get_height\<close> (lines 89-91) and \<^verbatim>\<open>rope_node_get_weight\<close> (lines 94-102).\<close>

fun rope_node_get_height :: "RopeNode \<Rightarrow> int" where
  "rope_node_get_height Null = 0"
| "rope_node_get_height (Node l r h w lf d) = h"

fun rope_node_get_weight :: "RopeNode \<Rightarrow> nat" where
  "rope_node_get_weight Null = 0"
| "rope_node_get_weight (Node l r h w lf d) =
     (if lf then length d
      else rope_node_get_weight l + rope_node_get_weight r)"

text \<open>\<^verbatim>\<open>rope_node_update\<close> (lines 105-116).\<close>

fun rope_node_update :: "RopeNode \<Rightarrow> RopeNode" where
  "rope_node_update Null = Null"
| "rope_node_update (Node l r h w lf d) =
     Node l r (1 + max (rope_node_get_height l) (rope_node_get_height r))
          (if lf then length d else rope_node_get_weight l) lf d"

text \<open>
  \<^verbatim>\<open>rope_node_create_leaf\<close> (lines 56-64): at most \<open>ROPE_NODE_CAPACITY\<close> bytes are stored;
  a longer input is cut. \<^verbatim>\<open>rope_node_create_internal\<close> (lines 67-74).
\<close>

definition rope_node_create_leaf :: "char list \<Rightarrow> nat \<Rightarrow> RopeNode" where
  "rope_node_create_leaf str len =
     (let d = take (min len ROPE_NODE_CAPACITY) str
      in Node Null Null 1 (length d) True d)"

definition rope_node_create_internal :: "RopeNode \<Rightarrow> RopeNode \<Rightarrow> RopeNode" where
  "rope_node_create_internal l r = rope_node_update (Node l r 1 0 False [])"

text \<open>\<^verbatim>\<open>rope_node_balance_factor\<close> (lines 119-121).\<close>

fun rope_node_balance_factor :: "RopeNode \<Rightarrow> int" where
  "rope_node_balance_factor Null = 0"
| "rope_node_balance_factor (Node l r h w lf d) =
     rope_node_get_height l - rope_node_get_height r"

text \<open>
  The rotations (lines 124-149). \<^verbatim>\<open>x = y->left; T2 = x->right\<close> dereferences \<open>y\<close> and
  \<open>x\<close>: with a null \<open>y\<close> or \<open>x\<close> there is no result. The \<^verbatim>\<open>is_leaf\<close> flag and the data of
  both nodes are left as they are.
\<close>

fun rope_node_rotate_right :: "RopeNode \<Rightarrow> RopeNode option" where
  "rope_node_rotate_right (Node (Node xl T2 xh xw xlf xd) yr yh yw ylf yd) =
     (let y = rope_node_update (Node T2 yr yh yw ylf yd);
          x = rope_node_update (Node xl y xh xw xlf xd)
      in Some x)"
| "rope_node_rotate_right _ = None"

fun rope_node_rotate_left :: "RopeNode \<Rightarrow> RopeNode option" where
  "rope_node_rotate_left (Node xl (Node T2 yr yh yw ylf yd) xh xw xlf xd) =
     (let x = rope_node_update (Node xl T2 xh xw xlf xd);
          y = rope_node_update (Node x yr yh yw ylf yd)
      in Some y)"
| "rope_node_rotate_left _ = None"

text \<open>The assignments \<^verbatim>\<open>node->left = ...\<close> and \<^verbatim>\<open>node->right = ...\<close>.\<close>

fun set_left :: "RopeNode \<Rightarrow> RopeNode \<Rightarrow> RopeNode" where
  "set_left l' (Node l r h w lf d) = Node l' r h w lf d"
| "set_left l' Null = Null"

fun set_right :: "RopeNode \<Rightarrow> RopeNode \<Rightarrow> RopeNode" where
  "set_right r' (Node l r h w lf d) = Node l r' h w lf d"
| "set_right r' Null = Null"

text \<open>\<^verbatim>\<open>rope_node_balance\<close> (lines 152-176).\<close>

fun rope_node_balance :: "RopeNode \<Rightarrow> RopeNode option" where
  "rope_node_balance Null = Some Null"
| "rope_node_balance (Node l0 r0 h0 w0 lf0 d0) =
     (let node = rope_node_update (Node l0 r0 h0 w0 lf0 d0);
          balance = rope_node_balance_factor node
      in if balance > 1 then
           (if rope_node_balance_factor (left node) < 0 then
              (case rope_node_rotate_left (left node) of
                 None \<Rightarrow> None
               | Some l' \<Rightarrow> rope_node_rotate_right (set_left l' node))
            else rope_node_rotate_right node)
         else if balance < - 1 then
           (if rope_node_balance_factor (right node) > 0 then
              (case rope_node_rotate_right (right node) of
                 None \<Rightarrow> None
               | Some r' \<Rightarrow> rope_node_rotate_left (set_right r' node))
            else rope_node_rotate_left node)
         else Some node)"

section \<open>Insertion, deletion and copy on nodes\<close>

text \<open>
  The split point of the bulk path of \<^verbatim>\<open>rope_node_insert\<close> (lines 186-189): half of
  \<open>len\<close>, rounded down to a multiple of the capacity, and the capacity when that is zero.
\<close>

definition insert_mid :: "nat \<Rightarrow> nat" where
  "insert_mid len =
     (let mid = len div 2;
          mid = (mid div ROPE_NODE_CAPACITY) * ROPE_NODE_CAPACITY
      in if mid = 0 then ROPE_NODE_CAPACITY else mid)"

text \<open>
  \<^verbatim>\<open>rope_node_insert\<close> (lines 179-231). The pair \<^verbatim>\<open>(str, len)\<close> is the list \<open>str\<close> of bytes
  at the pointer and the count \<open>len\<close>; \<^verbatim>\<open>str + mid\<close> is \<open>drop mid str\<close>. The caller owes
  \<open>len \<le> length str\<close> (the source would read past the bytes it was given); the results
  below that speak of the inserted bytes assume it. At a leaf an offset past the end of
  the data has no defined result.
\<close>

function rope_node_insert :: "RopeNode \<Rightarrow> nat \<Rightarrow> char list \<Rightarrow> nat \<Rightarrow> RopeNode option" where
  "rope_node_insert Null pos str len =
     (if len \<le> ROPE_NODE_CAPACITY then Some (rope_node_create_leaf str len)
      else
        (case rope_node_insert Null 0 str (insert_mid len) of
           None \<Rightarrow> None
         | Some l \<Rightarrow>
             (case rope_node_insert Null 0 (drop (insert_mid len) str) (len - insert_mid len) of
                None \<Rightarrow> None
              | Some r \<Rightarrow> Some (rope_node_create_internal l r))))"
| "rope_node_insert (Node l r h w lf d) pos str len =
     (if lf then
        (if length d < pos then None
         else if length d + len \<le> ROPE_NODE_CAPACITY then
           Some (rope_node_update (Node l r h w lf (take pos d @ take len str @ drop pos d)))
         else
           (let left_node = rope_node_create_leaf d pos;
                right_node = rope_node_create_leaf (drop pos d) (length d - pos);
                new_text_node = rope_node_create_leaf str len;
                left_tree = rope_node_create_internal left_node new_text_node;
                result = rope_node_create_internal left_tree right_node
            in rope_node_balance result))
      else if pos \<le> w then
        (case rope_node_insert l pos str len of
           None \<Rightarrow> None
         | Some l' \<Rightarrow> rope_node_balance (Node l' r h w lf d))
      else
        (case rope_node_insert r (pos - w) str len of
           None \<Rightarrow> None
         | Some r' \<Rightarrow> rope_node_balance (Node l r' h w lf d)))"
  by pat_completeness auto
termination
proof (relation "measure (\<lambda>(n, pos, str, len). size n + len)", goal_cases)
  case 1
  show ?case by simp
next
  case (2 pos str len)
  have "(len div 2 div ROPE_NODE_CAPACITY) * ROPE_NODE_CAPACITY \<le> len div 2" by simp
  moreover have "len div 2 < len" using 2 by (simp add: ROPE_NODE_CAPACITY_def)
  ultimately have "insert_mid len < len"
    using 2 by (auto simp: insert_mid_def Let_def ROPE_NODE_CAPACITY_def)
  then show ?case by simp
next
  case (3 pos str len x2)
  have "0 < insert_mid len"
    by (auto simp: insert_mid_def Let_def ROPE_NODE_CAPACITY_def)
  then show ?case using 3 by (simp add: ROPE_NODE_CAPACITY_def)
next
  case (4 l r h w lf d pos str len)
  show ?case by simp
next
  case (5 l r h w lf d pos str len)
  show ?case by simp
qed

text \<open>
  The end of \<^verbatim>\<open>rope_node_delete\<close> (lines 275-289): a node left with a null child is
  replaced by the other child, and a node with two children is rebalanced.
\<close>

definition delete_collapse :: "RopeNode \<Rightarrow> RopeNode option" where
  "delete_collapse node =
     (if left node = Null \<and> right node = Null then Some Null
      else if left node = Null then Some (right node)
      else if right node = Null then Some (left node)
      else rope_node_balance node)"

text \<open>\<^verbatim>\<open>rope_node_delete\<close> (lines 234-290); \<open>Some Null\<close> is the returned null pointer.\<close>

fun rope_node_delete :: "RopeNode \<Rightarrow> nat \<Rightarrow> nat \<Rightarrow> RopeNode option" where
  "rope_node_delete Null pos len = Some Null"
| "rope_node_delete (Node l r h w lf d) pos len =
     (if len = 0 then Some (Node l r h w lf d)
      else if lf then
        (if pos \<ge> length d then Some (Node l r h w lf d)
         else
           (let actual_len = min len (length d - pos);
                d' = take pos d @ drop (pos + actual_len) d;
                node = rope_node_update (Node l r h w lf d')
            in if length d' = 0 then Some Null else Some node))
      else
        (let left_weight = rope_node_get_weight l
         in if pos < left_weight then
              (let left_delete_len = min len (left_weight - pos)
               in case rope_node_delete l pos left_delete_len of
                    None \<Rightarrow> None
                  | Some l' \<Rightarrow>
                      (if len > left_delete_len then
                         (case rope_node_delete r 0 (len - left_delete_len) of
                            None \<Rightarrow> None
                          | Some r' \<Rightarrow> delete_collapse (Node l' r' h w lf d))
                       else delete_collapse (Node l' r h w lf d)))
            else
              (case rope_node_delete r (pos - left_weight) len of
                 None \<Rightarrow> None
               | Some r' \<Rightarrow> delete_collapse (Node l r' h w lf d))))"

text \<open>
  \<^verbatim>\<open>rope_node_copy\<close> (lines 293-316). The caller's storage is the list \<open>buffer\<close>; the
  result is the returned count and the storage after the call. \<^verbatim>\<open>buffer + copied\<close> is
  \<open>drop copied buffer\<close>, and what is written there follows the first \<open>copied\<close> bytes.
\<close>

fun rope_node_copy :: "RopeNode \<Rightarrow> nat \<Rightarrow> char list \<Rightarrow> nat \<Rightarrow> nat \<times> char list" where
  "rope_node_copy Null pos buffer len = (0, buffer)"
| "rope_node_copy (Node l r h w lf d) pos buffer len =
     (if len = 0 then (0, buffer)
      else if lf then
        (if pos \<ge> length d then (0, buffer)
         else
           (let copy_len = min len (length d - pos)
            in (copy_len, memcpy buffer (drop pos d) copy_len)))
      else
        (let left_weight = rope_node_get_weight l
         in if pos < left_weight then
              (case rope_node_copy l pos buffer len of
                 (copied, buf1) \<Rightarrow>
                   if copied < len then
                     (case rope_node_copy r 0 (drop copied buf1) (len - copied) of
                        (copied2, buf2) \<Rightarrow> (copied + copied2, take copied buf1 @ buf2))
                   else (copied, buf1))
            else rope_node_copy r (pos - left_weight) buffer len))"

section \<open>The buffer facade\<close>

text \<open>\<^verbatim>\<open>rope_init\<close> (lines 319-322), \<^verbatim>\<open>rope_length\<close> (lines 325-327), \<^verbatim>\<open>rope_free\<close> (lines 387-391).\<close>

definition rope_init :: "Rope" where
  "rope_init = \<lparr>root = Null, total_length = 0\<rparr>"

definition rope_length :: "Rope \<Rightarrow> nat" where
  "rope_length rope = total_length rope"

definition rope_free :: "Rope \<Rightarrow> Rope" where
  "rope_free rope = \<lparr>root = Null, total_length = 0\<rparr>"

text \<open>\<^verbatim>\<open>rope_insert\<close> (lines 330-335).\<close>

definition rope_insert :: "Rope \<Rightarrow> nat \<Rightarrow> char list \<Rightarrow> nat \<Rightarrow> Rope option" where
  "rope_insert rope pos str len =
     (if len = 0 then Some rope
      else
        (case rope_node_insert (root rope) pos str len of
           None \<Rightarrow> None
         | Some n \<Rightarrow> Some \<lparr>root = n, total_length = total_length rope + len\<rparr>))"

text \<open>\<^verbatim>\<open>rope_from_string\<close> (lines 338-355); \<open>str\<close> is the memory at the pointer, a C string.\<close>

definition rope_from_string :: "Rope \<Rightarrow> char list \<Rightarrow> Rope option" where
  "rope_from_string rope str =
     (let len = strlen str
      in if len = 0 then Some \<lparr>root = Null, total_length = 0\<rparr>
         else if len \<le> ROPE_NODE_CAPACITY then
           Some \<lparr>root = rope_node_create_leaf str len, total_length = len\<rparr>
         else rope_insert \<lparr>root = Null, total_length = 0\<rparr> 0 str len)"

text \<open>\<^verbatim>\<open>rope_delete\<close> (lines 358-363).\<close>

definition rope_delete :: "Rope \<Rightarrow> nat \<Rightarrow> nat \<Rightarrow> Rope option" where
  "rope_delete rope pos len =
     (if len = 0 then Some rope
      else
        (case rope_node_delete (root rope) pos len of
           None \<Rightarrow> None
         | Some n \<Rightarrow>
             Some \<lparr>root = n,
                   total_length = total_length rope
                     - min len (total_length rope - min pos (total_length rope))\<rparr>))"

text \<open>\<^verbatim>\<open>rope_copy\<close> (lines 366-369).\<close>

definition rope_copy :: "Rope \<Rightarrow> nat \<Rightarrow> char list \<Rightarrow> nat \<Rightarrow> nat \<times> char list" where
  "rope_copy rope pos buffer len =
     (if root rope = Null then (0, buffer)
      else rope_node_copy (root rope) pos buffer len)"

text \<open>
  \<^verbatim>\<open>rope_char_at\<close> (lines 372-376): the storage is the one byte \<open>c\<close>, initially NUL, and
  the result is that byte after the copy.
\<close>

definition rope_char_at :: "Rope \<Rightarrow> nat \<Rightarrow> char" where
  "rope_char_at rope pos =
     (case snd (rope_copy rope pos [CHR 0x00] 1) of
        c # _ \<Rightarrow> c
      | [] \<Rightarrow> CHR 0x00)"

text \<open>
  \<^verbatim>\<open>rope_to_string\<close> (lines 379-384). \<^verbatim>\<open>new char[total_length + 1]\<close> is not initialised:
  \<open>fresh\<close> is what the allocation holds before the copy, any \<open>total_length + 1\<close> bytes.
  The result is the whole array, its last byte the terminating NUL.
\<close>

definition rope_to_string :: "Rope \<Rightarrow> char list \<Rightarrow> char list" where
  "rope_to_string rope fresh =
     (let str = snd (rope_copy rope 0 fresh (total_length rope))
      in str[total_length rope := CHR 0x00])"

section \<open>Abstraction and structural invariant\<close>

text \<open>
  \<open>rope_leaves\<close> lists the data of the leaves reachable from a node, left to right. The
  traversals of the source (\<^verbatim>\<open>rope_node_get_weight\<close>, \<^verbatim>\<open>rope_node_copy\<close>,
  \<^verbatim>\<open>rope_node_free\<close>) stop at a node whose \<^verbatim>\<open>is_leaf\<close> flag is set, and so does this one.
  \<open>rope_content\<close> is the byte string the tree stands for.

  \<open>rope_wf\<close> is the structural invariant of a non-null subtree: a leaf has no children,
  height 1, at most \<open>ROPE_NODE_CAPACITY\<close> bytes and its length as weight; an internal
  node has two non-null well-formed children, and its cached height and weight are what
  \<^verbatim>\<open>rope_node_update\<close> computes. It does not ask for AVL balance, nor for non-empty leaves.
\<close>

fun rope_leaves :: "RopeNode \<Rightarrow> char list list" where
  "rope_leaves Null = []"
| "rope_leaves (Node l r h w lf d) =
     (if lf then [d] else rope_leaves l @ rope_leaves r)"

definition rope_content :: "RopeNode \<Rightarrow> char list" where
  "rope_content n = concat (rope_leaves n)"

fun rope_wf :: "RopeNode \<Rightarrow> bool" where
  "rope_wf Null = False"
| "rope_wf (Node l r h w lf d) =
     (if lf then l = Null \<and> r = Null \<and> h = 1 \<and> w = length d \<and> length d \<le> ROPE_NODE_CAPACITY
      else rope_wf l \<and> rope_wf r
         \<and> h = 1 + max (rope_node_get_height l) (rope_node_get_height r)
         \<and> w = rope_node_get_weight l)"

text \<open>
  \<open>length_consistent\<close>: the cached \<^verbatim>\<open>total_length\<close> is the sum of the lengths of the leaves
  reachable from the root. \<open>rope_inv\<close>: the invariant of a buffer, a null or well-formed
  root together with a consistent cached length.
\<close>

definition length_consistent :: "Rope \<Rightarrow> bool" where
  "length_consistent rope =
     (total_length rope = sum_list (map length (rope_leaves (root rope))))"

definition rope_inv :: "Rope \<Rightarrow> bool" where
  "rope_inv rope =
     ((root rope = Null \<or> rope_wf (root rope)) \<and> length_consistent rope)"

text \<open>
  \<open>length_covers\<close>: the cached length is at least the sum of the leaf lengths.
  \<open>weak_inv\<close> is \<open>rope_inv\<close> with that in place of equality.
\<close>

definition length_covers :: "Rope \<Rightarrow> bool" where
  "length_covers rope =
     (sum_list (map length (rope_leaves (root rope))) \<le> total_length rope)"

definition weak_inv :: "Rope \<Rightarrow> bool" where
  "weak_inv rope = ((root rope = Null \<or> rope_wf (root rope)) \<and> length_covers rope)"

text \<open>
  The buffers that the public operations produce from the empty buffer, each called
  within its contract: \<open>pos\<close> in \<open>[0, length]\<close> for insert with \<open>len\<close> bytes available at
  \<open>str\<close>, \<open>pos\<close> in \<open>[0, length)\<close> for delete, a NUL-terminated string for
  \<^verbatim>\<open>rope_from_string\<close>. \<open>reachable_in_capacity\<close> further keeps every insertion into a
  non-empty buffer to at most \<open>ROPE_NODE_CAPACITY\<close> bytes.
\<close>

inductive reachable :: "Rope \<Rightarrow> bool" where
  reach_init: "reachable rope_init"
| reach_insert:
    "reachable r \<Longrightarrow> pos \<le> rope_length r \<Longrightarrow> len \<le> length str \<Longrightarrow>
     rope_insert r pos str len = Some r' \<Longrightarrow> reachable r'"
| reach_delete:
    "reachable r \<Longrightarrow> pos < rope_length r \<Longrightarrow>
     rope_delete r pos len = Some r' \<Longrightarrow> reachable r'"
| reach_from_string:
    "reachable r \<Longrightarrow> CHR 0x00 \<in> set str \<Longrightarrow>
     rope_from_string r str = Some r' \<Longrightarrow> reachable r'"
| reach_free: "reachable r \<Longrightarrow> reachable (rope_free r)"

inductive reachable_in_capacity :: "Rope \<Rightarrow> bool" where
  cap_init: "reachable_in_capacity rope_init"
| cap_insert:
    "reachable_in_capacity r \<Longrightarrow> pos \<le> rope_length r \<Longrightarrow> len \<le> length str \<Longrightarrow>
     root r = Null \<or> len \<le> ROPE_NODE_CAPACITY \<Longrightarrow>
     rope_insert r pos str len = Some r' \<Longrightarrow> reachable_in_capacity r'"
| cap_delete:
    "reachable_in_capacity r \<Longrightarrow> pos < rope_length r \<Longrightarrow>
     rope_delete r pos len = Some r' \<Longrightarrow> reachable_in_capacity r'"
| cap_from_string:
    "reachable_in_capacity r \<Longrightarrow> CHR 0x00 \<in> set str \<Longrightarrow>
     rope_from_string r str = Some r' \<Longrightarrow> reachable_in_capacity r'"
| cap_free: "reachable_in_capacity r \<Longrightarrow> reachable_in_capacity (rope_free r)"

text \<open>
  The AVL condition: at every internal node the heights of the two subtrees differ by at
  most one. \<open>node_height\<close> is the height of the tree as it is, not the cached field.
\<close>

fun node_height :: "RopeNode \<Rightarrow> int" where
  "node_height Null = 0"
| "node_height (Node l r h w lf d) =
     (if lf then 1 else 1 + max (node_height l) (node_height r))"

fun avl_balanced :: "RopeNode \<Rightarrow> bool" where
  "avl_balanced Null = True"
| "avl_balanced (Node l r h w lf d) =
     (if lf then True
      else \<bar>node_height l - node_height r\<bar> \<le> 1 \<and> avl_balanced l \<and> avl_balanced r)"

text \<open>
  Position routing at an internal node. \<open>spec_route\<close> is the rule as the specification
  words it (section 4.2): left when \<open>pos \<le> weight\<close>, else right with \<open>pos - weight\<close>.
  The other three are the branches the source takes: \<^verbatim>\<open>rope_node_insert\<close> compares with
  the cached \<^verbatim>\<open>node->weight\<close> by \<^verbatim>\<open><=\<close> (lines 224-228); \<^verbatim>\<open>rope_node_delete\<close> (lines
  259-273) and \<^verbatim>\<open>rope_node_copy\<close> (lines 305-315) recompute the weight of the left subtree
  and compare by \<^verbatim>\<open><\<close>.
\<close>

datatype route = GoLeft nat | GoRight nat

definition spec_route :: "nat \<Rightarrow> nat \<Rightarrow> route" where
  "spec_route pos wgt = (if pos \<le> wgt then GoLeft pos else GoRight (pos - wgt))"

definition rope_node_insert_route :: "RopeNode \<Rightarrow> nat \<Rightarrow> route" where
  "rope_node_insert_route node pos =
     (if pos \<le> weight node then GoLeft pos else GoRight (pos - weight node))"

definition rope_node_delete_route :: "RopeNode \<Rightarrow> nat \<Rightarrow> route" where
  "rope_node_delete_route node pos =
     (let left_weight = rope_node_get_weight (left node)
      in if pos < left_weight then GoLeft pos else GoRight (pos - left_weight))"

definition rope_node_copy_route :: "RopeNode \<Rightarrow> nat \<Rightarrow> route" where
  "rope_node_copy_route node pos =
     (let left_weight = rope_node_get_weight (left node)
      in if pos < left_weight then GoLeft pos else GoRight (pos - left_weight))"

section \<open>Concrete buffers\<close>

text \<open>A two-leaf buffer holding \<^verbatim>\<open>Hello, World!\<close>, and a two-leaf node holding \<^verbatim>\<open>ab\<close>.\<close>

definition hello_rope :: Rope where
  "hello_rope =
     \<lparr>root = Node (Node Null Null 1 5 True ''Hello'') (Node Null Null 1 8 True '', World!'')
               2 5 False [],
      total_length = 13\<rparr>"

definition ab_node :: RopeNode where
  "ab_node = Node (Node Null Null 1 1 True ''a'') (Node Null Null 1 1 True ''b'') 2 1 False []"

text \<open>What \<^verbatim>\<open>rope_from_string\<close> builds from 1537 bytes \<^verbatim>\<open>a\<close>.\<close>

definition bulk_rope :: Rope where
  "bulk_rope =
     \<lparr>root =
        Node (Node Null Null 1 512 True (replicate 512 (CHR ''a'')))
             (Node (Node Null Null 1 512 True (replicate 512 (CHR ''a'')))
                   (Node (Node Null Null 1 512 True (replicate 512 (CHR ''a'')))
                         (Node Null Null 1 1 True ''a'') 2 512 False [])
                   3 512 False [])
             4 512 False [],
      total_length = 1537\<rparr>"

text \<open>
  What \<^verbatim>\<open>rope_from_string\<close> builds from 8192 bytes \<^verbatim>\<open>a\<close>, a perfect tree of 16 full leaves,
  and what \<^verbatim>\<open>rope_delete\<close> leaves of it after deleting the first 4095 bytes.
\<close>

definition leaf512 :: RopeNode where
  "leaf512 = Node Null Null 1 512 True (replicate 512 (CHR ''a''))"

definition pair512 :: RopeNode where
  "pair512 = Node leaf512 leaf512 2 512 False []"

definition quad512 :: RopeNode where
  "quad512 = Node pair512 pair512 3 1024 False []"

definition oct512 :: RopeNode where
  "oct512 = Node quad512 quad512 4 2048 False []"

definition balanced_rope :: Rope where
  "balanced_rope = \<lparr>root = Node oct512 oct512 5 4096 False [], total_length = 8192\<rparr>"

definition after_delete_rope :: Rope where
  "after_delete_rope =
     \<lparr>root = Node (Node (Node Null Null 1 1 True ''a'') quad512 4 1 False [])
                   quad512 5 2049 False [],
      total_length = 4097\<rparr>"

text \<open>
  The buffer \<^verbatim>\<open>ab\<close>, a text of 513 bytes, and the buffer after inserting that text at
  position 1.
\<close>

definition ab_rope :: Rope where
  "ab_rope = \<lparr>root = Node Null Null 1 2 True ''ab'', total_length = 2\<rparr>"

definition oversize_text :: "char list" where
  "oversize_text = replicate 512 (CHR ''x'') @ ''y''"

definition oversize_rope :: Rope where
  "oversize_rope =
     \<lparr>root =
        Node (Node (Node Null Null 1 1 True ''a'')
                   (Node Null Null 1 512 True (replicate 512 (CHR ''x''))) 2 1 False [])
             (Node Null Null 1 1 True ''b'')
             3 513 False [],
      total_length = 515\<rparr>"

text \<open>
  That buffer after deleting one byte at position 514, and after deleting one byte at
  position 0.
\<close>

definition tail_deleted_rope :: Rope where
  "tail_deleted_rope = \<lparr>root = root oversize_rope, total_length = 514\<rparr>"

definition head_deleted_rope :: Rope where
  "head_deleted_rope =
     \<lparr>root = Node (Node Null Null 1 512 True (replicate 512 (CHR ''x'')))
                   (Node Null Null 1 1 True ''b'') 2 512 False [],
      total_length = 514\<rparr>"

text \<open>
  A buffer of one full leaf, and the buffer after inserting one byte at position 0.
\<close>

definition full_rope :: Rope where
  "full_rope =
     \<lparr>root = Node Null Null 1 512 True (replicate 512 (CHR ''a'')), total_length = 512\<rparr>"

definition empty_leaf_rope :: Rope where
  "empty_leaf_rope =
     \<lparr>root =
        Node (Node (Node Null Null 1 0 True [])
                   (Node Null Null 1 1 True ''b'') 2 0 False [])
             (Node Null Null 1 512 True (replicate 512 (CHR ''a'')))
             3 1 False [],
      total_length = 513\<rparr>"

section \<open>Rotations and rebalancing keep the invariant and the content\<close>

lemma rope_content_simps [simp]:
  "rope_content Null = []"
  "rope_content (Node l r h w lf d) = (if lf then d else rope_content l @ rope_content r)"
  by (simp_all add: rope_content_def)

lemma get_weight_content: "rope_node_get_weight n = length (rope_content n)"
  by (induction n) auto

lemma wf_height_pos: "rope_wf n \<Longrightarrow> 1 \<le> rope_node_get_height n"
  by (induction n) (auto split: if_splits)

lemma wf_leaf_height: "rope_wf (Node l r h w True d) \<Longrightarrow> h = 1"
  by simp

lemma wf_internal:
  "rope_wf l \<Longrightarrow> rope_wf r \<Longrightarrow> rope_wf (rope_node_update (Node l r h w False d))"
  by simp

lemma rotate_right_ok:
  assumes "rope_wf (Node xl T2 xh xw False xd)" "rope_wf yr"
  shows "\<exists>t. rope_node_rotate_right (Node (Node xl T2 xh xw False xd) yr yh yw False yd) = Some t
     \<and> rope_wf t \<and> rope_content t = rope_content xl @ rope_content T2 @ rope_content yr"
  using assms by (simp add: Let_def)

lemma rotate_left_ok:
  assumes "rope_wf xl" "rope_wf (Node T2 yr yh yw False yd)"
  shows "\<exists>t. rope_node_rotate_left (Node xl (Node T2 yr yh yw False yd) xh xw False xd) = Some t
     \<and> rope_wf t \<and> rope_content t = rope_content xl @ rope_content T2 @ rope_content yr"
  using assms by (simp add: Let_def)

lemma wf_high_internal:
  "rope_wf n \<Longrightarrow> 2 \<le> rope_node_get_height n \<Longrightarrow>
   \<exists>l r h w d. n = Node l r h w False d \<and> rope_wf l \<and> rope_wf r"
  by (cases n) (auto split: if_splits)

lemma balance_ok:
  assumes l: "rope_wf l" and r: "rope_wf r"
  shows "\<exists>t. rope_node_balance (Node l r h w False d) = Some t
     \<and> rope_wf t \<and> rope_content t = rope_content l @ rope_content r"
proof -
  let ?hl = "rope_node_get_height l" and ?hr = "rope_node_get_height r"
  have hl: "1 \<le> ?hl" and hr: "1 \<le> ?hr" using l r by (simp_all add: wf_height_pos)
  consider (L) "?hl - ?hr > 1" | (R) "?hl - ?hr < - 1" | (B) "\<not> ?hl - ?hr > 1" "\<not> ?hl - ?hr < - 1"
    by linarith
  then show ?thesis
  proof cases
    case L
    then have "2 \<le> ?hl" using hr by linarith
    then obtain ll lr lh lw ld where leq: "l = Node ll lr lh lw False ld"
      and wll: "rope_wf ll" and wlr: "rope_wf lr"
      using wf_high_internal [OF l] by blast
    show ?thesis
    proof (cases "rope_node_get_height ll - rope_node_get_height lr < 0")
      case True
      have "1 \<le> rope_node_get_height ll" using wll by (rule wf_height_pos)
      with True have "2 \<le> rope_node_get_height lr" by linarith
      then obtain a b lrh lrw lrd where lreq: "lr = Node a b lrh lrw False lrd"
        and wa: "rope_wf a" and wb: "rope_wf b"
        using wf_high_internal [OF wlr] by blast
      show ?thesis using L True l r wll wlr wa wb unfolding leq lreq
        by (simp add: Let_def)
    next
      case False
      show ?thesis using L False l r wll wlr unfolding leq
        by (simp add: Let_def)
    qed
  next
    case R
    then have "2 \<le> ?hr" using hl by linarith
    then obtain rl rr rh rw rd where req: "r = Node rl rr rh rw False rd"
      and wrl: "rope_wf rl" and wrr: "rope_wf rr"
      using wf_high_internal [OF r] by blast
    show ?thesis
    proof (cases "rope_node_get_height rl - rope_node_get_height rr > 0")
      case True
      have "1 \<le> rope_node_get_height rr" using wrr by (rule wf_height_pos)
      with True have "2 \<le> rope_node_get_height rl" by linarith
      then obtain a b rlh rlw rld where rleq: "rl = Node a b rlh rlw False rld"
        and wa: "rope_wf a" and wb: "rope_wf b"
        using wf_high_internal [OF wrl] by blast
      show ?thesis using R True l r wrl wrr wa wb unfolding req rleq
        by (cases l) (simp_all add: Let_def)
    next
      case False
      show ?thesis using R False l r wrl wrr unfolding req
        by (cases l) (simp_all add: Let_def)
    qed
  next
    case B
    then show ?thesis using l r by (simp add: Let_def)
  qed
qed

section \<open>Insertion, deletion and copy on well-formed trees\<close>

lemma insert_mid_bounds:
  "ROPE_NODE_CAPACITY < len \<Longrightarrow> 0 < insert_mid len \<and> insert_mid len < len"
proof -
  assume a: "ROPE_NODE_CAPACITY < len"
  have "(len div 2 div ROPE_NODE_CAPACITY) * ROPE_NODE_CAPACITY \<le> len div 2"
    by simp
  moreover have "len div 2 < len" using a by (simp add: ROPE_NODE_CAPACITY_def)
  ultimately show ?thesis
    using a by (auto simp: insert_mid_def Let_def ROPE_NODE_CAPACITY_def)
qed

lemma insert_null_ok:
  "\<exists>t. rope_node_insert Null pos str len = Some t \<and> rope_wf t
     \<and> rope_content t = take len str"
proof (induction len arbitrary: pos str rule: less_induct)
  case (less len)
  show ?case
  proof (cases "len \<le> ROPE_NODE_CAPACITY")
    case True
    then show ?thesis by (simp add: rope_node_create_leaf_def)
  next
    case False
    let ?mid = "insert_mid len"
    have mid: "0 < ?mid" "?mid < len" using False insert_mid_bounds [of len] by simp_all
    obtain l where l: "rope_node_insert Null 0 str ?mid = Some l" "rope_wf l"
        "rope_content l = take ?mid str"
      using less.IH [OF mid(2), of 0 str] by blast
    have "len - ?mid < len" using mid by simp
    then obtain r where r: "rope_node_insert Null 0 (drop ?mid str) (len - ?mid) = Some r"
        "rope_wf r" "rope_content r = take (len - ?mid) (drop ?mid str)"
      using less.IH [of "len - ?mid" 0 "drop ?mid str"] by blast
    have "take ?mid str @ take (len - ?mid) (drop ?mid str) = take (?mid + (len - ?mid)) str"
      by (simp only: take_add)
    also have "\<dots> = take len str" using mid by simp
    finally have cat: "take ?mid str @ take (len - ?mid) (drop ?mid str) = take len str" .
    show ?thesis using False l r cat
      by (simp add: rope_node_create_internal_def)
  qed
qed

lemma create_internal_eq:
  "\<exists>h w. rope_node_create_internal l r = Node l r h w False []"
  by (simp add: rope_node_create_internal_def)

lemma create_leaf_wf: "rope_wf (rope_node_create_leaf str len)"
  by (simp add: rope_node_create_leaf_def)

lemma create_leaf_content:
  "rope_content (rope_node_create_leaf str len) = take (min len ROPE_NODE_CAPACITY) str"
  by (simp add: rope_node_create_leaf_def)

lemma create_internal_wf:
  "rope_wf l \<Longrightarrow> rope_wf r \<Longrightarrow> rope_wf (rope_node_create_internal l r)"
  by (simp add: rope_node_create_internal_def)

lemma insert_leaf_ok:
  assumes wf: "rope_wf (Node l r h w True d)" and pos: "pos \<le> length d"
  shows "\<exists>t. rope_node_insert (Node l r h w True d) pos str len = Some t \<and> rope_wf t
     \<and> rope_content t = take pos d @ take (min len ROPE_NODE_CAPACITY) str @ drop pos d"
proof (cases "length d + len \<le> ROPE_NODE_CAPACITY")
  case True
  then show ?thesis using wf pos by (simp add: min_def)
next
  case False
  let ?lt = "rope_node_create_internal (rope_node_create_leaf d pos) (rope_node_create_leaf str len)"
  let ?rn = "rope_node_create_leaf (drop pos d) (length d - pos)"
  have dcap: "length d \<le> ROPE_NODE_CAPACITY" using wf by simp
  have wlt: "rope_wf ?lt" by (simp add: create_internal_wf create_leaf_wf)
  have wrn: "rope_wf ?rn" by (rule create_leaf_wf)
  obtain h' w' where eq: "rope_node_create_internal ?lt ?rn = Node ?lt ?rn h' w' False []"
    using create_internal_eq by blast
  obtain t where t: "rope_node_balance (Node ?lt ?rn h' w' False []) = Some t" "rope_wf t"
      "rope_content t = rope_content ?lt @ rope_content ?rn"
    using balance_ok [OF wlt wrn] by blast
  have clt: "rope_content ?lt = take pos d @ take (min len ROPE_NODE_CAPACITY) str"
    using pos dcap by (simp add: rope_node_create_internal_def create_leaf_content min_def)
  have crn: "rope_content ?rn = drop pos d"
    using pos dcap by (simp add: create_leaf_content)
  have "rope_node_insert (Node l r h w True d) pos str len = Some t"
    using False pos t(1) eq by (simp add: Let_def)
  then show ?thesis using t clt crn by simp
qed

lemma insert_node_ok:
  "rope_wf n \<Longrightarrow> pos \<le> length (rope_content n) \<Longrightarrow>
   \<exists>t. rope_node_insert n pos str len = Some t \<and> rope_wf t
     \<and> rope_content t = take pos (rope_content n) @ take (min len ROPE_NODE_CAPACITY) str
          @ drop pos (rope_content n)"
proof (induction n arbitrary: pos)
  case Null
  then show ?case by simp
next
  case (Node l r h w lf d)
  show ?case
  proof (cases lf)
    case True
    then show ?thesis using insert_leaf_ok [of l r h w d pos str len] Node.prems by simp
  next
    case False
    with Node.prems have wl: "rope_wf l" and wr: "rope_wf r"
      and w: "w = length (rope_content l)"
      by (simp_all add: get_weight_content)
    show ?thesis
    proof (cases "pos \<le> w")
      case True
      then obtain l' where l': "rope_node_insert l pos str len = Some l'" "rope_wf l'"
        "rope_content l' = take pos (rope_content l) @ take (min len ROPE_NODE_CAPACITY) str
          @ drop pos (rope_content l)"
        using Node.IH(1) [OF wl, of pos] w by auto
      obtain t where t: "rope_node_balance (Node l' r h w False d) = Some t" "rope_wf t"
        "rope_content t = rope_content l' @ rope_content r"
        using balance_ok [OF l'(2) wr] by blast
      show ?thesis using False True l' t w by simp
    next
      case gt: False
      then have "pos - w \<le> length (rope_content r)" using Node.prems(2) False w by simp
      then obtain r' where r': "rope_node_insert r (pos - w) str len = Some r'" "rope_wf r'"
        "rope_content r' = take (pos - w) (rope_content r) @ take (min len ROPE_NODE_CAPACITY) str
          @ drop (pos - w) (rope_content r)"
        using Node.IH(2) [OF wr, of "pos - w"] by auto
      obtain t where t: "rope_node_balance (Node l r' h w False d) = Some t" "rope_wf t"
        "rope_content t = rope_content l @ rope_content r'"
        using balance_ok [OF wl r'(2)] by blast
      show ?thesis using False gt r' t w by simp
    qed
  qed
qed

lemma collapse_ok:
  assumes "l = Null \<or> rope_wf l" "r = Null \<or> rope_wf r"
  shows "\<exists>t. delete_collapse (Node l r h w False d) = Some t \<and> (t = Null \<or> rope_wf t)
     \<and> rope_content t = rope_content l @ rope_content r"
proof (cases "l = Null \<or> r = Null")
  case True
  then show ?thesis using assms by (auto simp: delete_collapse_def)
next
  case False
  then have "rope_wf l" "rope_wf r" using assms by auto
  from balance_ok [OF this, of h w d] show ?thesis using False
    by (auto simp: delete_collapse_def simp del: rope_node_balance.simps)
qed

lemma delete_node_ok:
  "rope_wf n \<Longrightarrow>
   \<exists>t. rope_node_delete n pos len = Some t \<and> (t = Null \<or> rope_wf t)
     \<and> rope_content t = take pos (rope_content n) @ drop (pos + len) (rope_content n)"
proof (induction n arbitrary: pos len)
  case Null
  then show ?case by simp
next
  case (Node l r h w lf d)
  show ?case
  proof (cases "len = 0")
    case True
    then show ?thesis using Node.prems by simp
  next
    case len: False
    show ?thesis
    proof (cases lf)
      case True
      show ?thesis
      proof (cases "pos \<ge> length d")
        case True
        then show ?thesis using \<open>lf\<close> len Node.prems by simp
      next
        case False
        have "drop (pos + min len (length d - pos)) d = drop (pos + len) d"
          by (cases "len \<le> length d - pos") (simp_all add: min_def)
        then show ?thesis using False \<open>lf\<close> len Node.prems
          by (auto simp: Let_def)
      qed
    next
      case False
      with Node.prems have wl: "rope_wf l" and wr: "rope_wf r" by simp_all
      let ?lw = "rope_node_get_weight l"
      have lw: "?lw = length (rope_content l)" by (rule get_weight_content)
      show ?thesis
      proof (cases "pos < ?lw")
        case True
        let ?ldl = "min len (?lw - pos)"
        obtain l' where l': "rope_node_delete l pos ?ldl = Some l'" "l' = Null \<or> rope_wf l'"
          "rope_content l' = take pos (rope_content l) @ drop (pos + ?ldl) (rope_content l)"
          using Node.IH(1) [OF wl, of pos ?ldl] by blast
        show ?thesis
        proof (cases "len > ?ldl")
          case True
          obtain r' where r': "rope_node_delete r 0 (len - ?ldl) = Some r'" "r' = Null \<or> rope_wf r'"
            "rope_content r' = take 0 (rope_content r) @ drop (0 + (len - ?ldl)) (rope_content r)"
            using Node.IH(2) [OF wr, of 0 "len - ?ldl"] by blast
          obtain t where t: "delete_collapse (Node l' r' h w False d) = Some t" "t = Null \<or> rope_wf t"
            "rope_content t = rope_content l' @ rope_content r'"
            using collapse_ok [OF l'(2) r'(2)] by blast
          have lt: "?lw - pos < len" using True by simp
          have ldl: "?ldl = ?lw - pos" using True by simp
          have "rope_node_delete (Node l r h w lf d) pos len = Some t"
            using \<open>\<not> lf\<close> len \<open>pos < ?lw\<close> lt l'(1) r'(1) t(1) by (simp add: Let_def ldl)
          moreover have "rope_content t = take pos (rope_content (Node l r h w lf d))
              @ drop (pos + len) (rope_content (Node l r h w lf d))"
            using t(3) l'(3) r'(3) \<open>\<not> lf\<close> \<open>pos < ?lw\<close> True lw by (simp add: ldl add.commute)
          ultimately show ?thesis using t(2) by blast
        next
          case nle: False
          obtain t where t: "delete_collapse (Node l' r h w False d) = Some t" "t = Null \<or> rope_wf t"
            "rope_content t = rope_content l' @ rope_content r"
            using collapse_ok [OF l'(2), of r] wr by blast
          have ldl: "?ldl = len" using nle by simp
          have "rope_node_delete (Node l r h w lf d) pos len = Some t"
            using \<open>\<not> lf\<close> len \<open>pos < ?lw\<close> l'(1) t(1) by (simp add: Let_def ldl)
          moreover have "rope_content t = take pos (rope_content (Node l r h w lf d))
              @ drop (pos + len) (rope_content (Node l r h w lf d))"
            using t(3) l'(3) \<open>\<not> lf\<close> \<open>pos < ?lw\<close> nle lw by (simp add: ldl)
          ultimately show ?thesis using t(2) by blast
        qed
      next
        case ge: False
        obtain r' where r': "rope_node_delete r (pos - ?lw) len = Some r'" "r' = Null \<or> rope_wf r'"
          "rope_content r' = take (pos - ?lw) (rope_content r) @ drop (pos - ?lw + len) (rope_content r)"
          using Node.IH(2) [OF wr, of "pos - ?lw" len] by blast
        obtain t where t: "delete_collapse (Node l r' h w False d) = Some t" "t = Null \<or> rope_wf t"
          "rope_content t = rope_content l @ rope_content r'"
          using collapse_ok [OF _ r'(2), of l] wl by blast
        have "rope_node_delete (Node l r h w lf d) pos len = Some t"
          using \<open>\<not> lf\<close> len ge r'(1) t(1) by (simp add: Let_def)
        moreover have "rope_content t = take pos (rope_content (Node l r h w lf d))
            @ drop (pos + len) (rope_content (Node l r h w lf d))"
          using t(3) r'(3) \<open>\<not> lf\<close> ge lw by simp
        ultimately show ?thesis using t(2) by blast
      qed
    qed
  qed
qed

lemma copy_node_ok:
  "rope_node_copy n pos buffer len =
     (min len (length (rope_content n) - pos),
      take (min len (length (rope_content n) - pos)) (drop pos (rope_content n))
        @ drop (min len (length (rope_content n) - pos)) buffer)"
proof (induction n arbitrary: pos buffer len)
  case Null
  show ?case by simp
next
  case (Node l r h w lf d)
  show ?case
  proof (cases "len = 0 \<or> lf")
    case True
    then show ?thesis by (auto simp: memcpy_def Let_def)
  next
    case False
    then have len: "len \<noteq> 0" and lf: "\<not> lf" by simp_all
    let ?cl = "rope_content l" and ?cr = "rope_content r"
    have lw: "rope_node_get_weight l = length ?cl" by (rule get_weight_content)
    show ?thesis
    proof (cases "pos < length ?cl")
      case ge: False
      then show ?thesis using len lf lw Node.IH(2) [of "pos - length ?cl" buffer len]
        by (simp add: Let_def add.commute)
    next
      case True
      let ?c1 = "min len (length ?cl - pos)"
      let ?b1 = "take ?c1 (drop pos ?cl) @ drop ?c1 buffer"
      have l1: "rope_node_copy l pos buffer len = (?c1, ?b1)" by (rule Node.IH(1))
      have len1: "length (take ?c1 (drop pos ?cl)) = ?c1" by simp
      show ?thesis
      proof (cases "?c1 < len")
        case False
        then have c1: "?c1 = len" by simp
        have "len \<le> length ?cl - pos" using False by simp
        then show ?thesis using len lf lw True l1 False
          by (simp add: Let_def min_def)
      next
        case lt: True
        then have c1: "?c1 = length ?cl - pos" by simp
        let ?c2 = "min (len - ?c1) (length ?cr - 0)"
        have d1: "drop ?c1 ?b1 = drop ?c1 buffer"
          using len1 by (simp del: length_take length_drop)
        have t1: "take ?c1 ?b1 = drop pos ?cl"
          using True by (simp add: c1)
        have l2: "rope_node_copy r 0 (drop ?c1 ?b1) (len - ?c1)
            = (?c2, take ?c2 (drop 0 ?cr) @ drop ?c2 (drop ?c1 ?b1))"
          by (rule Node.IH(2))
        have "rope_node_copy (Node l r h w lf d) pos buffer len
            = (?c1 + ?c2, take ?c1 ?b1 @ take ?c2 (drop 0 ?cr) @ drop ?c2 (drop ?c1 ?b1))"
          using len lf lw True l1 lt l2 by (simp add: Let_def del: drop_append take_append)
        also have "\<dots> = (?c1 + ?c2, drop pos ?cl @ take ?c2 ?cr @ drop (?c1 + ?c2) buffer)"
          by (simp only: t1 d1 drop_0 drop_drop add.commute)
        finally have eq: "rope_node_copy (Node l r h w lf d) pos buffer len
            = (?c1 + ?c2, drop pos ?cl @ take ?c2 ?cr @ drop (?c1 + ?c2) buffer)" .
        have n: "min len (length (rope_content (Node l r h w lf d)) - pos) = ?c1 + ?c2"
          using lf True lt by (auto simp: min_def)
        have "take (?c1 + ?c2) (drop pos (rope_content (Node l r h w lf d)))
            = drop pos ?cl @ take ?c2 ?cr"
          using lf True by (simp add: c1)
        then show ?thesis unfolding eq n by simp
      qed
    qed
  qed
qed

section \<open>The facade on consistent buffers\<close>

text \<open>
  From here on the recursive equations of \<open>rope_node_balance\<close> and \<open>rope_node_insert\<close>
  are unfolded only on request.
\<close>

declare rope_node_balance.simps [simp del]
declare rope_node_insert.simps [simp del]

lemma length_content: "length (rope_content n) = sum_list (map length (rope_leaves n))"
  by (simp add: rope_content_def length_concat)

lemma length_consistent_content:
  "length_consistent rope \<Longrightarrow> total_length rope = length (rope_content (root rope))"
  by (simp add: length_consistent_def length_content)

lemma rope_inv_iff:
  "rope_inv rope \<longleftrightarrow>
     (root rope = Null \<or> rope_wf (root rope))
     \<and> total_length rope = length (rope_content (root rope))"
  by (simp add: rope_inv_def length_consistent_def length_content)

lemma rope_copy_content:
  "rope_copy rope pos buffer len =
     (min len (length (rope_content (root rope)) - pos),
      take (min len (length (rope_content (root rope)) - pos)) (drop pos (rope_content (root rope)))
        @ drop (min len (length (rope_content (root rope)) - pos)) buffer)"
  by (cases "root rope = Null") (simp_all add: rope_copy_def copy_node_ok)

lemma to_string_content:
  assumes "length_consistent rope" "length fresh = total_length rope + 1"
  shows "rope_to_string rope fresh = rope_content (root rope) @ [CHR 0x00]"
proof -
  let ?c = "rope_content (root rope)"
  have n: "total_length rope = length ?c" using assms(1) by (rule length_consistent_content)
  have "length fresh = Suc (length ?c)" using assms(2) n by simp
  then obtain x xs where fresh: "fresh = xs @ [x]" "length xs = length ?c"
    by (auto simp: length_Suc_conv_rev)
  have "snd (rope_copy rope 0 fresh (total_length rope)) = ?c @ [x]"
    by (simp add: rope_copy_content n fresh)
  then show ?thesis by (simp add: rope_to_string_def n)
qed

lemma strlen_terminated:
  "CHR 0x00 \<notin> set s \<Longrightarrow> strlen (s @ CHR 0x00 # rest) = length s"
  by (induction s) (auto simp: strlen_def)

lemma strlen_replicate:
  "c \<noteq> CHR 0x00 \<Longrightarrow> strlen (replicate n c @ CHR 0x00 # rest) = n"
  using strlen_terminated [of "replicate n c" rest] by simp

text \<open>
  Insertion of at most \<open>ROPE_NODE_CAPACITY\<close> bytes, or of any number of bytes into the
  empty buffer, keeps the invariant and places the bytes at \<open>pos\<close>. Deletion keeps the
  invariant and removes the range.
\<close>

lemma rope_insert_ok:
  assumes inv: "rope_inv rope" and pos: "pos \<le> rope_length rope" and len: "len \<le> length str"
    and cap: "root rope = Null \<or> len \<le> ROPE_NODE_CAPACITY"
  shows "\<exists>r'. rope_insert rope pos str len = Some r' \<and> rope_inv r'
     \<and> rope_content (root r') = take pos (rope_content (root rope)) @ take len str
          @ drop pos (rope_content (root rope))
     \<and> rope_length r' = rope_length rope + len"
proof (cases "len = 0")
  case True
  then show ?thesis using inv by (simp add: rope_insert_def)
next
  case False
  let ?c = "rope_content (root rope)"
  have n: "total_length rope = length ?c"
    using inv by (simp add: rope_inv_def length_consistent_content)
  obtain t where t: "rope_node_insert (root rope) pos str len = Some t" "rope_wf t"
    "rope_content t = take pos ?c @ take len str @ drop pos ?c"
  proof (cases "root rope = Null")
    case True
    then show ?thesis using insert_null_ok [of pos str len] that by auto
  next
    case nn: False
    have wf: "rope_wf (root rope)" using inv nn unfolding rope_inv_def by blast
    have cap': "len \<le> ROPE_NODE_CAPACITY" using cap nn by blast
    have p: "pos \<le> length ?c" using pos n by (simp add: rope_length_def)
    have mn: "min len ROPE_NODE_CAPACITY = len" using cap' by simp
    from insert_node_ok [OF wf p, of str len] show ?thesis
      using that unfolding mn by blast
  qed
  let ?r = "\<lparr>root = t, total_length = total_length rope + len\<rparr>"
  have lt: "length (rope_content t) = length ?c + len"
    using t(3) pos n len by (simp add: rope_length_def)
  have 1: "rope_insert rope pos str len = Some ?r"
    using False t(1) by (simp add: rope_insert_def)
  have 2: "rope_inv ?r" unfolding rope_inv_iff using t(2) lt n by simp
  have 3: "rope_content (root ?r) = take pos ?c @ take len str @ drop pos ?c"
    using t(3) by simp
  have 4: "rope_length ?r = rope_length rope + len" by (simp add: rope_length_def)
  show ?thesis using 1 2 3 4 by blast
qed

lemma rope_delete_ok:
  assumes inv: "rope_inv rope"
  shows "\<exists>r'. rope_delete rope pos len = Some r' \<and> rope_inv r'
     \<and> rope_content (root r') = take pos (rope_content (root rope))
          @ drop (pos + len) (rope_content (root rope))
     \<and> rope_length r' = rope_length rope - min len (rope_length rope - pos)"
proof (cases "len = 0")
  case True
  then show ?thesis using inv by (simp add: rope_delete_def)
next
  case False
  let ?c = "rope_content (root rope)"
  have n: "total_length rope = length ?c"
    using inv by (simp add: rope_inv_def length_consistent_content)
  obtain t where t: "rope_node_delete (root rope) pos len = Some t" "t = Null \<or> rope_wf t"
    "rope_content t = take pos ?c @ drop (pos + len) ?c"
  proof (cases "root rope = Null")
    case True
    then show ?thesis using that by simp
  next
    case nn: False
    then have "rope_wf (root rope)" using inv by (simp add: rope_inv_def)
    then show ?thesis using delete_node_ok [of "root rope" pos len] that by blast
  qed
  let ?n = "total_length rope - min len (total_length rope - min pos (total_length rope))"
  let ?r = "\<lparr>root = t, total_length = ?n\<rparr>"
  have "length (take pos ?c @ drop (pos + len) ?c) = length ?c - min len (length ?c - pos)"
    by (simp only: length_append length_take length_drop)
  then have lt: "length (rope_content t) = length ?c - min len (length ?c - pos)"
    by (simp only: t(3))
  have m: "min len (length ?c - min pos (length ?c)) = min len (length ?c - pos)"
    by arith
  have tl: "?n = length (rope_content t)" by (simp only: n lt m)
  have 1: "rope_delete rope pos len = Some ?r"
    using False t(1) by (simp add: rope_delete_def)
  have 2: "rope_inv ?r" unfolding rope_inv_iff using t(2) tl by simp
  have 3: "rope_content (root ?r) = take pos ?c @ drop (pos + len) ?c" using t(3) by simp
  have 4: "rope_length ?r = rope_length rope - min len (rope_length rope - pos)"
    by (simp only: rope_length_def Rope.simps n m)
  show ?thesis using 1 2 3 4 by blast
qed

text \<open>
  \<^verbatim>\<open>rope_from_string\<close> on a C string establishes the invariant, whatever the buffer held.
\<close>

lemma rope_from_string_ok:
  assumes "CHR 0x00 \<notin> set s"
  shows "\<exists>r. rope_from_string rope (s @ CHR 0x00 # rest) = Some r
     \<and> rope_inv r \<and> rope_length r = length s \<and> rope_content (root r) = s"
proof -
  let ?str = "s @ CHR 0x00 # rest"
  have sl: "strlen ?str = length s" using assms by (rule strlen_terminated)
  show ?thesis
  proof (cases "length s = 0")
    case True
    then show ?thesis using sl
      by (simp add: rope_from_string_def rope_inv_def length_consistent_def rope_length_def)
  next
    case ne: False
    show ?thesis
    proof (cases "length s \<le> ROPE_NODE_CAPACITY")
      case True
      then show ?thesis using ne
        by (simp add: rope_from_string_def sl rope_inv_def length_consistent_def rope_length_def
            create_leaf_wf rope_node_create_leaf_def Let_def)
    next
      case False
      have "rope_inv \<lparr>root = Null, total_length = 0\<rparr>"
        by (simp add: rope_inv_def length_consistent_def)
      from rope_insert_ok [OF this, of 0 "length s" ?str]
      obtain r' where "rope_insert \<lparr>root = Null, total_length = 0\<rparr> 0 ?str (length s) = Some r'"
        "rope_inv r'" "rope_content (root r') = s" "rope_length r' = length s"
        by (auto simp: rope_length_def)
      then show ?thesis using ne False
        by (simp add: rope_from_string_def sl)
    qed
  qed
qed

lemma terminated_split:
  "CHR 0x00 \<in> set str \<Longrightarrow> \<exists>s rest. str = s @ CHR 0x00 # rest \<and> CHR 0x00 \<notin> set s"
  by (rule split_list_first)

text \<open>
  Every buffer reachable with in-capacity insertions satisfies \<open>rope_inv\<close>.
\<close>

lemma reachable_in_capacity_inv:
  "reachable_in_capacity r \<Longrightarrow> rope_inv r"
proof (induction rule: reachable_in_capacity.induct)
  case cap_init
  show ?case by (simp add: rope_inv_def length_consistent_def rope_init_def)
next
  case (cap_insert r pos len str r')
  from rope_insert_ok [OF cap_insert.IH cap_insert.hyps(2,3,4)] cap_insert.hyps(5)
  show ?case by auto
next
  case (cap_delete r pos len r')
  from rope_delete_ok [OF cap_delete.IH, of pos len] cap_delete.hyps(3)
  show ?case by auto
next
  case (cap_from_string r str r')
  from terminated_split [OF cap_from_string.hyps(2)]
  obtain s rest where "str = s @ CHR 0x00 # rest" "CHR 0x00 \<notin> set s" by blast
  with rope_from_string_ok [of s r rest] cap_from_string.hyps(3)
  show ?case by auto
next
  case (cap_free r)
  show ?case by (simp add: rope_inv_def length_consistent_def rope_free_def)
qed

text \<open>
  Without the bound on insertions the tree stays well-formed and the cached length never
  falls below the content: an insertion past the end of the content has no defined
  result, and any other one adds at most \<open>len\<close> bytes.
\<close>

lemma insert_past_end:
  "rope_wf n \<Longrightarrow> length (rope_content n) < pos \<Longrightarrow> rope_node_insert n pos str len = None"
proof (induction n arbitrary: pos)
  case Null
  then show ?case by simp
next
  case (Node l r h w lf d)
  show ?case
  proof (cases lf)
    case True
    then show ?thesis using Node.prems by (simp add: rope_node_insert.simps)
  next
    case False
    with Node.prems have wr: "rope_wf r" and w: "w = length (rope_content l)"
      by (simp_all add: get_weight_content)
    have gt: "\<not> pos \<le> w" using Node.prems(2) False w by simp
    have "length (rope_content r) < pos - w" using Node.prems(2) False w by simp
    then have "rope_node_insert r (pos - w) str len = None" using Node.IH(2) [OF wr] by simp
    then show ?thesis using False gt by (simp add: rope_node_insert.simps)
  qed
qed

lemma weak_inv_iff:
  "weak_inv rope \<longleftrightarrow>
     (root rope = Null \<or> rope_wf (root rope))
     \<and> length (rope_content (root rope)) \<le> total_length rope"
  by (simp add: weak_inv_def length_covers_def length_content)

lemma rope_inv_weak: "rope_inv r \<Longrightarrow> weak_inv r"
  by (simp add: rope_inv_iff weak_inv_iff)

lemma rope_insert_weak:
  assumes inv: "weak_inv rope" and ins: "rope_insert rope pos str len = Some r'"
  shows "weak_inv r'"
proof (cases "len = 0")
  case True
  then show ?thesis using inv ins by (simp add: rope_insert_def)
next
  case False
  let ?c = "rope_content (root rope)"
  obtain t where t: "rope_node_insert (root rope) pos str len = Some t"
    and r': "r' = \<lparr>root = t, total_length = total_length rope + len\<rparr>"
    using ins False by (auto simp: rope_insert_def split: option.splits)
  have "rope_wf t \<and> length (rope_content t) \<le> length ?c + len"
  proof (cases "root rope = Null")
    case True
    then show ?thesis using insert_null_ok [of pos str len] t by auto
  next
    case nn: False
    then have wf: "rope_wf (root rope)" using inv by (simp add: weak_inv_iff)
    have p: "pos \<le> length ?c"
    proof (rule ccontr)
      assume "\<not> pos \<le> length ?c"
      then have "rope_node_insert (root rope) pos str len = None"
        using insert_past_end [OF wf, of pos str len] by simp
      with t show False by simp
    qed
    from insert_node_ok [OF wf p, of str len] t
    have "rope_wf t" and c: "rope_content t
        = take pos ?c @ take (min len ROPE_NODE_CAPACITY) str @ drop pos ?c"
      by auto
    have "length (take pos ?c @ take (min len ROPE_NODE_CAPACITY) str @ drop pos ?c)
        \<le> length ?c + len"
      using p by simp
    then show ?thesis using \<open>rope_wf t\<close> c by simp
  qed
  then show ?thesis using inv unfolding weak_inv_iff r' by simp
qed

lemma rope_delete_weak:
  assumes inv: "weak_inv rope" and del: "rope_delete rope pos len = Some r'"
  shows "weak_inv r'"
proof (cases "len = 0")
  case True
  then show ?thesis using inv del by (simp add: rope_delete_def)
next
  case False
  let ?c = "rope_content (root rope)"
  let ?n = "total_length rope - min len (total_length rope - min pos (total_length rope))"
  obtain t where t: "rope_node_delete (root rope) pos len = Some t"
    and r': "r' = \<lparr>root = t, total_length = ?n\<rparr>"
    using del False by (auto simp: rope_delete_def split: option.splits)
  have le: "length ?c \<le> total_length rope" using inv by (simp add: weak_inv_iff)
  have "(t = Null \<or> rope_wf t) \<and> rope_content t = take pos ?c @ drop (pos + len) ?c"
  proof (cases "root rope = Null")
    case True
    then show ?thesis using t by simp
  next
    case nn: False
    then have wf: "rope_wf (root rope)" using inv by (simp add: weak_inv_iff)
    from delete_node_ok [OF wf, of pos len] t show ?thesis by auto
  qed
  then have wt: "t = Null \<or> rope_wf t"
    and c: "rope_content t = take pos ?c @ drop (pos + len) ?c" by simp_all
  have "length (take pos ?c @ drop (pos + len) ?c) = length ?c - min len (length ?c - pos)"
    by (simp only: length_append length_take length_drop)
  moreover have "length ?c - min len (length ?c - pos) \<le> ?n" using le by arith
  ultimately have "length (rope_content t) \<le> ?n" by (simp only: c)
  then show ?thesis using wt unfolding weak_inv_iff r' by simp
qed

lemma reachable_weak_inv:
  "reachable r \<Longrightarrow> weak_inv r"
proof (induction rule: reachable.induct)
  case reach_init
  show ?case by (simp add: weak_inv_iff rope_init_def)
next
  case (reach_insert r pos len str r')
  then show ?case using rope_insert_weak by blast
next
  case (reach_delete r pos len r')
  then show ?case using rope_delete_weak by blast
next
  case (reach_from_string r str r')
  from terminated_split [OF reach_from_string.hyps(2)]
  obtain s rest where "str = s @ CHR 0x00 # rest" "CHR 0x00 \<notin> set s" by blast
  with rope_from_string_ok [of s r rest] reach_from_string.hyps(3)
  have "rope_inv r'" by auto
  then show ?case by (rule rope_inv_weak)
next
  case (reach_free r)
  show ?case by (simp add: weak_inv_iff rope_free_def)
qed

lemma reachable_in_capacity_reachable:
  "reachable_in_capacity r \<Longrightarrow> reachable r"
  by (induction rule: reachable_in_capacity.induct) (auto intro: reachable.intros)

text \<open>The three node functions branch at an internal node as their route says.\<close>

lemma insert_follows_route:
  "rope_node_insert (Node l r h w False d) pos str len =
     (case rope_node_insert_route (Node l r h w False d) pos of
        GoLeft p \<Rightarrow>
          (case rope_node_insert l p str len of
             None \<Rightarrow> None
           | Some l' \<Rightarrow> rope_node_balance (Node l' r h w False d))
      | GoRight p \<Rightarrow>
          (case rope_node_insert r p str len of
             None \<Rightarrow> None
           | Some r' \<Rightarrow> rope_node_balance (Node l r' h w False d)))"
  by (simp add: rope_node_insert.simps rope_node_insert_route_def)

lemma delete_follows_route:
  "len \<noteq> 0 \<Longrightarrow>
   rope_node_delete (Node l r h w False d) pos len =
     (case rope_node_delete_route (Node l r h w False d) pos of
        GoLeft p \<Rightarrow>
          (let left_delete_len = min len (rope_node_get_weight l - p)
           in case rope_node_delete l p left_delete_len of
                None \<Rightarrow> None
              | Some l' \<Rightarrow>
                  (if len > left_delete_len then
                     (case rope_node_delete r 0 (len - left_delete_len) of
                        None \<Rightarrow> None
                      | Some r' \<Rightarrow> delete_collapse (Node l' r' h w False d))
                   else delete_collapse (Node l' r h w False d)))
      | GoRight p \<Rightarrow>
          (case rope_node_delete r p len of
             None \<Rightarrow> None
           | Some r' \<Rightarrow> delete_collapse (Node l r' h w False d)))"
  by (simp add: rope_node_delete_route_def Let_def)

lemma copy_follows_route:
  "len \<noteq> 0 \<Longrightarrow>
   rope_node_copy (Node l r h w False d) pos buffer len =
     (case rope_node_copy_route (Node l r h w False d) pos of
        GoLeft p \<Rightarrow>
          (case rope_node_copy l p buffer len of
             (copied, buf1) \<Rightarrow>
               if copied < len then
                 (case rope_node_copy r 0 (drop copied buf1) (len - copied) of
                    (copied2, buf2) \<Rightarrow> (copied + copied2, take copied buf1 @ buf2))
               else (copied, buf1))
      | GoRight p \<Rightarrow> rope_node_copy r p buffer len)"
  by (simp add: rope_node_copy_route_def Let_def)

text \<open>
  At \<open>pos = weight\<close> the choice of the child is not visible in the results of delete and
  copy: entering the left child there deletes and copies nothing and continues in the
  right child at offset 0, which is what the source does directly.
\<close>

lemma delete_zero: "rope_node_delete n pos 0 = Some n"
  by (cases n) simp_all

lemma boundary_route_unobservable:
  assumes len: "len \<noteq> 0" and pos: "pos = rope_node_get_weight l"
  shows "rope_node_copy (Node l r h w False d) pos buffer len =
      (case rope_node_copy l pos buffer len of
         (copied, buf1) \<Rightarrow>
           if copied < len then
             (case rope_node_copy r 0 (drop copied buf1) (len - copied) of
                (copied2, buf2) \<Rightarrow> (copied + copied2, take copied buf1 @ buf2))
           else (copied, buf1))"
    and "rope_node_delete (Node l r h w False d) pos len =
      (let left_delete_len = min len (rope_node_get_weight l - pos)
       in case rope_node_delete l pos left_delete_len of
            None \<Rightarrow> None
          | Some l' \<Rightarrow>
              (if len > left_delete_len then
                 (case rope_node_delete r 0 (len - left_delete_len) of
                    None \<Rightarrow> None
                  | Some r' \<Rightarrow> delete_collapse (Node l' r' h w False d))
               else delete_collapse (Node l' r h w False d)))"
proof -
  have "rope_node_copy l pos buffer len = (0, buffer)"
    using pos by (simp add: copy_node_ok get_weight_content)
  then show "rope_node_copy (Node l r h w False d) pos buffer len =
      (case rope_node_copy l pos buffer len of
         (copied, buf1) \<Rightarrow>
           if copied < len then
             (case rope_node_copy r 0 (drop copied buf1) (len - copied) of
                (copied2, buf2) \<Rightarrow> (copied + copied2, take copied buf1 @ buf2))
           else (copied, buf1))"
    using len pos by (simp add: Let_def split: prod.splits)
  show "rope_node_delete (Node l r h w False d) pos len =
      (let left_delete_len = min len (rope_node_get_weight l - pos)
       in case rope_node_delete l pos left_delete_len of
            None \<Rightarrow> None
          | Some l' \<Rightarrow>
              (if len > left_delete_len then
                 (case rope_node_delete r 0 (len - left_delete_len) of
                    None \<Rightarrow> None
                  | Some r' \<Rightarrow> delete_collapse (Node l' r' h w False d))
               else delete_collapse (Node l' r h w False d)))"
    using len pos by (simp add: Let_def delete_zero)
qed

text \<open>
  A deletion that spans several leaves can take more than one level off a subtree, and
  \<^verbatim>\<open>rope_node_balance\<close> rotates once: from the perfect tree of 16 leaves, deleting the first
  4095 bytes leaves a node with a leaf on the left and a subtree of height 3 on the right.
\<close>

lemma multi_leaf_delete_unbalanced:
  "rope_from_string rope_init (replicate 8192 (CHR ''a'') @ [CHR 0x00]) = Some balanced_rope
   \<and> avl_balanced (root balanced_rope)
   \<and> rope_delete balanced_rope 0 4095 = Some after_delete_rope
   \<and> \<not> avl_balanced (root after_delete_rope)"
proof -
  have 1: "rope_from_string rope_init (replicate 8192 (CHR ''a'') @ [CHR 0x00])
      = Some balanced_rope"
    by (simp add: rope_from_string_def strlen_replicate rope_insert_def ROPE_NODE_CAPACITY_def
        insert_mid_def rope_node_create_internal_def rope_node_create_leaf_def
        rope_node_insert.simps balanced_rope_def oct512_def quad512_def pair512_def leaf512_def)
  have 2: "avl_balanced (root balanced_rope)"
    by (simp add: balanced_rope_def oct512_def quad512_def pair512_def leaf512_def)
  have 3: "rope_delete balanced_rope 0 4095 = Some after_delete_rope"
    by (simp add: rope_delete_def balanced_rope_def after_delete_rope_def oct512_def
        quad512_def pair512_def leaf512_def delete_collapse_def rope_node_balance.simps Let_def)
  have 4: "\<not> avl_balanced (root after_delete_rope)"
    by (simp add: after_delete_rope_def oct512_def quad512_def pair512_def leaf512_def)
  show ?thesis using 1 2 3 4 by blast
qed

text \<open>The buffer \<^verbatim>\<open>ab\<close> is what \<^verbatim>\<open>rope_from_string\<close> builds, and the oversize insertion.\<close>

lemma oversize_insert:
  "rope_from_string rope_init (''ab'' @ [CHR 0x00]) = Some ab_rope
   \<and> rope_inv ab_rope
   \<and> rope_insert ab_rope 1 oversize_text (length oversize_text) = Some oversize_rope"
  by (simp add: rope_from_string_def strlen_def rope_insert_def ROPE_NODE_CAPACITY_def
    rope_node_create_internal_def rope_node_create_leaf_def rope_node_insert.simps
    rope_node_balance.simps ab_rope_def oversize_text_def oversize_rope_def rope_init_def
    rope_inv_def length_consistent_def Let_def)

lemma reachable_ab_rope: "reachable_in_capacity ab_rope"
proof -
  have fs: "rope_from_string rope_init (''ab'' @ [CHR 0x00]) = Some ab_rope"
    using oversize_insert by blast
  have nul: "CHR 0x00 \<in> set (''ab'' @ [CHR 0x00])" by simp
  show ?thesis by (rule cap_from_string [OF cap_init nul fs])
qed

lemma reachable_oversize_rope: "reachable oversize_rope"
proof -
  have a: "reachable ab_rope"
    using reachable_ab_rope by (rule reachable_in_capacity_reachable)
  have p: "1 \<le> rope_length ab_rope" by (simp add: rope_length_def ab_rope_def)
  have l: "length oversize_text \<le> length oversize_text" by simp
  have i: "rope_insert ab_rope 1 oversize_text (length oversize_text) = Some oversize_rope"
    using oversize_insert by blast
  show ?thesis by (rule reach_insert [OF a p l i])
qed

text \<open>
  Copy, character access and deletion on consistent buffers. On a buffer whose cached
  length is the sum of its leaf lengths, \<open>rope_copy\<close> returns \<open>min len (length - pos)\<close>
  for \<open>pos\<close> below the length and 0 otherwise, and the storage afterwards holds that many
  bytes of the content from \<open>pos\<close> on, followed by the untouched rest of \<open>out\<close>;
  \<open>rope_char_at\<close> at an index below the length is that byte of \<open>rope_to_string\<close>. On a
  buffer that satisfies \<open>rope_inv\<close>, \<open>rope_delete\<close> at a position below the length keeps
  the invariant, lowers the length by \<open>n = min len (length - pos)\<close> and makes
  \<open>rope_to_string\<close> the old first \<open>pos\<close> bytes followed by the old bytes from \<open>pos + n\<close> on.
  These buffers include every one reachable with in-capacity insertions.
\<close>

lemma rope_copy_exact:
  assumes "length_consistent rope"
  shows "rope_copy rope pos out len =
     (let n = (if pos < rope_length rope then min len (rope_length rope - pos) else 0)
      in (n, take n (drop pos (rope_content (root rope))) @ drop n out))"
  using length_consistent_content [OF assms]
  by (simp add: rope_copy_content rope_length_def Let_def)

lemma rope_copy_exact_witness:
  "length_consistent hello_rope
   \<and> rope_copy hello_rope 3 ''????????'' 6 = (6, ''lo, Wo??'')
   \<and> rope_copy hello_rope 7 ''????????'' 20 = (6, ''World!??'')
   \<and> rope_copy hello_rope 13 ''????????'' 4 = (0, ''????????'')"
proof -
  have h: "length_consistent hello_rope"
    by (simp add: length_consistent_def hello_rope_def)
  show ?thesis
    using h rope_copy_exact [OF h, of 3 "''????????''" 6]
      rope_copy_exact [OF h, of 7 "''????????''" 20]
      rope_copy_exact [OF h, of 13 "''????????''" 4]
    by (simp add: rope_length_def hello_rope_def)
qed

lemma rope_char_at_to_string:
  assumes "length_consistent rope" "i < rope_length rope"
    "length fresh = rope_length rope + 1"
  shows "rope_char_at rope i = rope_to_string rope fresh ! i"
proof -
  let ?c = "rope_content (root rope)"
  have n: "total_length rope = length ?c" using assms(1) by (rule length_consistent_content)
  have i: "i < length ?c" using assms(2) n by (simp add: rope_length_def)
  have "take (Suc 0) (drop i ?c) = [?c ! i]"
    using i by (simp add: take_Suc_conv_app_nth)
  moreover have "min (Suc 0) (length ?c - i) = Suc 0" using i by simp
  ultimately have "rope_char_at rope i = ?c ! i"
    by (simp add: rope_char_at_def rope_copy_content)
  moreover have "rope_to_string rope fresh ! i = ?c ! i"
    using to_string_content [OF assms(1), of fresh] assms(3) i
    by (simp add: rope_length_def nth_append)
  ultimately show ?thesis by simp
qed

lemma rope_char_at_to_string_witness:
  "length_consistent hello_rope \<and> 7 < rope_length hello_rope
   \<and> length (replicate 14 (CHR ''?'')) = rope_length hello_rope + 1
   \<and> rope_char_at hello_rope 7 = CHR ''W''
   \<and> rope_to_string hello_rope (replicate 14 (CHR ''?'')) ! 7 = CHR ''W''"
proof -
  have h: "length_consistent hello_rope"
    by (simp add: length_consistent_def hello_rope_def)
  have i: "7 < rope_length hello_rope" by (simp add: rope_length_def hello_rope_def)
  have f: "length (replicate 14 (CHR ''?'')) = rope_length hello_rope + 1"
    by (simp add: rope_length_def hello_rope_def)
  have "rope_to_string hello_rope (replicate 14 (CHR ''?'')) ! 7 = CHR ''W''"
    by (simp add: rope_to_string_def rope_copy_def hello_rope_def memcpy_def Let_def
        numeral_eq_Suc)
  then show ?thesis using h i f rope_char_at_to_string [OF h i f] by simp
qed

lemma rope_delete_exact:
  assumes inv: "rope_inv rope" and pos: "pos < rope_length rope"
    and fresh: "length fresh = rope_length rope + 1"
  shows "\<exists>r'. rope_delete rope pos len = Some r' \<and> rope_inv r'
     \<and> (let old = butlast (rope_to_string rope fresh);
             n = min len (rope_length rope - pos)
         in rope_length r' = rope_length rope - n
          \<and> (\<forall>fresh'. length fresh' = rope_length r' + 1 \<longrightarrow>
                rope_to_string r' fresh' = take pos old @ drop (pos + n) old @ [CHR 0x00]))"
proof -
  let ?c = "rope_content (root rope)"
  obtain r' where r': "rope_delete rope pos len = Some r'" "rope_inv r'"
    "rope_content (root r') = take pos ?c @ drop (pos + len) ?c"
    "rope_length r' = rope_length rope - min len (rope_length rope - pos)"
    using rope_delete_ok [OF inv, of pos len] by blast
  have n: "rope_length rope = length ?c"
    using inv by (simp add: rope_inv_def length_consistent_content rope_length_def)
  have old: "butlast (rope_to_string rope fresh) = ?c"
    using inv fresh to_string_content [of rope fresh]
    by (simp add: rope_inv_def rope_length_def)
  have dr: "drop (pos + min len (length ?c - pos)) ?c = drop (pos + len) ?c"
    by (cases "len \<le> length ?c - pos") (simp_all add: min_def)
  have "\<forall>fresh'. length fresh' = rope_length r' + 1 \<longrightarrow>
      rope_to_string r' fresh' = take pos ?c @ drop (pos + len) ?c @ [CHR 0x00]"
    using r'(2,3) to_string_content [of r'] by (simp add: rope_inv_def rope_length_def)
  then show ?thesis using r' old dr n by (simp add: Let_def)
qed

lemma rope_delete_exact_witness:
  "rope_inv hello_rope \<and> 5 < rope_length hello_rope
   \<and> length (replicate 14 (CHR ''?'')) = rope_length hello_rope + 1
   \<and> (\<exists>r'. rope_delete hello_rope 5 7 = Some r' \<and> rope_length r' = 6
        \<and> rope_to_string r' (replicate 7 (CHR ''?'')) = ''Hello!'' @ [CHR 0x00])"
proof -
  have h: "rope_inv hello_rope"
    by (simp add: rope_inv_def length_consistent_def hello_rope_def ROPE_NODE_CAPACITY_def)
  have p: "5 < rope_length hello_rope" by (simp add: rope_length_def hello_rope_def)
  have f: "length (replicate 14 (CHR ''?'')) = rope_length hello_rope + 1"
    by (simp add: rope_length_def hello_rope_def)
  have old: "butlast (rope_to_string hello_rope (replicate 14 (CHR ''?''))) = ''Hello, World!''"
    by (simp add: rope_to_string_def rope_copy_def hello_rope_def memcpy_def Let_def
        numeral_eq_Suc)
  have n: "rope_length hello_rope = 13" by (simp add: rope_length_def hello_rope_def)
  from rope_delete_exact [OF h p f, of 7]
  obtain r' where r': "rope_delete hello_rope 5 7 = Some r'"
    "rope_length r' = 6"
    "\<forall>fresh'. length fresh' = rope_length r' + 1 \<longrightarrow>
       rope_to_string r' fresh' = ''Hello!'' @ [CHR 0x00]"
    unfolding old n by (auto simp: Let_def)
  have "rope_to_string r' (replicate 7 (CHR ''?'')) = ''Hello!'' @ [CHR 0x00]"
    using r'(2,3) by simp
  then show ?thesis using h p f r' by blast
qed

text \<open>The content of the buffer left by the oversize insertion, and its string.\<close>

lemma oversize_content:
  "rope_content (root oversize_rope) = ''a'' @ replicate 512 (CHR ''x'') @ ''b''"
  by (simp add: oversize_rope_def)

lemma oversize_to_string:
  "rope_to_string oversize_rope (replicate 516 (CHR ''?''))
     = ''a'' @ replicate 512 (CHR ''x'') @ ''b?'' @ [CHR 0x00]"
proof -
  have r2: "replicate 2 (CHR ''?'') = ''??''" by (simp add: numeral_2_eq_2)
  have "snd (rope_copy oversize_rope 0 (replicate 516 (CHR ''?'')) 515)
      = ''a'' @ replicate 512 (CHR ''x'') @ ''b'' @ replicate 2 (CHR ''?'')"
    by (simp add: rope_copy_content oversize_content)
  then have "snd (rope_copy oversize_rope 0 (replicate 516 (CHR ''?'')) 515)
      = ''a'' @ replicate 512 (CHR ''x'') @ ''b'' @ ''??''"
    by (simp only: r2)
  then show ?thesis
    by (simp add: rope_to_string_def oversize_rope_def list_update_append)
qed

section \<open>The claims\<close>

text \<open>
  Claim C1 (AVL balance in every reachable state), evaluated on the buffer that
  \<^verbatim>\<open>rope_from_string\<close> builds from a string of 1537 bytes: the bulk path of
  \<^verbatim>\<open>rope_node_insert\<close> splits at 512 and does not rebalance, the root gets a leaf on the
  left and a subtree of height 3 on the right, balance factor \<open>-2\<close>. The buffer is
  reachable, and not AVL balanced.
\<close>

theorem from_string_unbalanced: 
  "reachable_in_capacity bulk_rope
   \<and> rope_from_string rope_init (replicate 1537 (CHR ''a'') @ [CHR 0x00]) = Some bulk_rope
   \<and> rope_node_balance_factor (root bulk_rope) = - 2
   \<and> \<not> avl_balanced (root bulk_rope)"
proof -
  have fs: "rope_from_string rope_init (replicate 1537 (CHR ''a'') @ [CHR 0x00]) = Some bulk_rope"
    by (simp add: rope_from_string_def strlen_replicate rope_insert_def ROPE_NODE_CAPACITY_def
      insert_mid_def rope_node_create_internal_def rope_node_create_leaf_def
      rope_node_insert.simps bulk_rope_def)
  have nul: "CHR 0x00 \<in> set (replicate 1537 (CHR ''a'') @ [CHR 0x00])" by simp
  have re: "reachable_in_capacity bulk_rope"
    by (rule cap_from_string [OF cap_init nul fs])
  have bf: "rope_node_balance_factor (root bulk_rope) = - 2" by (simp add: bulk_rope_def)
  have na: "\<not> avl_balanced (root bulk_rope)" by (simp add: bulk_rope_def)
  show ?thesis using re fs bf na by blast
qed

text \<open>
  Claim C2 (the cached length is the sum of the leaf lengths after every operation),
  evaluated on the insertion of 513 bytes at position 1 of the buffer \<^verbatim>\<open>ab\<close>: the leaf is
  split, \<^verbatim>\<open>rope_node_create_leaf\<close> keeps 512 of the 513 bytes, and \<^verbatim>\<open>rope_insert\<close> adds 513
  to the cached length. The leaves hold 514 bytes, the cached length is 515, in a
  reachable buffer.
\<close>

theorem oversize_insert_length_mismatch:
  "reachable oversize_rope
   \<and> rope_insert ab_rope 1 oversize_text 513 = Some oversize_rope
   \<and> rope_length ab_rope = 2
   \<and> rope_length oversize_rope = 515
   \<and> sum_list (map length (rope_leaves (root oversize_rope))) = 514
   \<and> \<not> length_consistent oversize_rope"
  using oversize_insert reachable_oversize_rope
  by (simp add: oversize_text_def oversize_rope_def ab_rope_def rope_length_def
    length_consistent_def)

text \<open>
  Claim C3 (insert places the whole of \<open>s\<close> at \<open>pos\<close>, also for \<open>s\<close> longer than the
  capacity), evaluated on the same insertion: the content afterwards is \<^verbatim>\<open>a\<close>, the first
  512 bytes of the text, \<^verbatim>\<open>b\<close>; the last byte of the text is lost, and \<^verbatim>\<open>rope_to_string\<close>
  returns that content followed by one byte of the fresh allocation.
\<close>

theorem oversize_insert_truncates:
  "rope_insert ab_rope 1 oversize_text 513 = Some oversize_rope
   \<and> rope_content (root ab_rope) = ''ab''
   \<and> rope_content (root oversize_rope) = ''a'' @ replicate 512 (CHR ''x'') @ ''b''
   \<and> rope_to_string oversize_rope (replicate 516 (CHR ''?''))
       = ''a'' @ replicate 512 (CHR ''x'') @ ''b?'' @ [CHR 0x00]
   \<and> rope_to_string oversize_rope (replicate 516 (CHR ''?''))
       \<noteq> ''a'' @ oversize_text @ ''b'' @ [CHR 0x00]"
proof -
  let ?got = "''a'' @ replicate 512 (CHR ''x'') @ ''b?'' @ [CHR 0x00]"
  let ?want = "''a'' @ oversize_text @ ''b'' @ [CHR 0x00]"
  have len: "length oversize_text = 513" by (simp add: oversize_text_def)
  have ins: "rope_insert ab_rope 1 oversize_text 513 = Some oversize_rope"
    using oversize_insert by (simp only: len)
  have ab: "rope_content (root ab_rope) = ''ab''" by (simp add: ab_rope_def)
  have c: "rope_content (root oversize_rope) = ''a'' @ replicate 512 (CHR ''x'') @ ''b''"
    by (simp add: oversize_rope_def)
  have r2: "replicate 2 (CHR ''?'') = ''??''" by (simp add: numeral_2_eq_2)
  have "snd (rope_copy oversize_rope 0 (replicate 516 (CHR ''?'')) 515)
      = ''a'' @ replicate 512 (CHR ''x'') @ ''b'' @ replicate 2 (CHR ''?'')"
    by (simp add: rope_copy_content c)
  then have "snd (rope_copy oversize_rope 0 (replicate 516 (CHR ''?'')) 515)
      = ''a'' @ replicate 512 (CHR ''x'') @ ''b'' @ ''??''"
    by (simp only: r2)
  then have ts: "rope_to_string oversize_rope (replicate 516 (CHR ''?'')) = ?got"
    by (simp add: rope_to_string_def oversize_rope_def list_update_append)
  have g: "?got ! 513 = CHR ''b''" by (simp add: nth_append)
  have w: "?want ! 513 = CHR ''y''" by (simp add: nth_append oversize_text_def)
  have ne: "?got \<noteq> ?want"
  proof
    assume "?got = ?want"
    then have "?got ! 513 = ?want ! 513" by (rule arg_cong)
    then show False by (simp only: g w) simp
  qed
  show ?thesis using ins ab c ne unfolding ts by blast
qed

text \<open>
  Claim C4. For every byte string \<open>s\<close> without a NUL byte, given as a C string (\<open>s\<close>, the
  terminating NUL, then anything), \<open>rope_from_string\<close> returns a buffer of length
  \<open>length s\<close> that satisfies the invariant, and \<open>rope_to_string\<close> of that buffer is \<open>s\<close>
  followed by the terminating NUL. Strings longer than one node's capacity are included:
  nothing bounds \<open>length s\<close>.
\<close>

theorem from_string_to_string:
  assumes "CHR 0x00 \<notin> set s"
  shows "\<exists>r. rope_from_string rope (s @ CHR 0x00 # rest) = Some r
     \<and> rope_inv r \<and> rope_length r = length s
     \<and> (\<forall>fresh. length fresh = length s + 1 \<longrightarrow> rope_to_string r fresh = s @ [CHR 0x00])"
proof -
  let ?str = "s @ CHR 0x00 # rest"
  obtain r where r: "rope_from_string rope ?str = Some r" "rope_inv r"
    "rope_length r = length s" "rope_content (root r) = s"
    using rope_from_string_ok [OF assms, of rope rest] by blast
  have "\<forall>fresh. length fresh = length s + 1 \<longrightarrow> rope_to_string r fresh = s @ [CHR 0x00]"
    using r to_string_content [of r] by (simp add: rope_inv_def rope_length_def)
  then show ?thesis using r by blast
qed

theorem from_string_to_string_witness:
  "CHR 0x00 \<notin> set (replicate 1537 (CHR ''a''))
   \<and> (\<exists>r. rope_from_string rope_init (replicate 1537 (CHR ''a'') @ [CHR 0x00]) = Some r
        \<and> rope_length r = 1537
        \<and> rope_to_string r (replicate 1538 (CHR ''?'')) = replicate 1537 (CHR ''a'') @ [CHR 0x00])"
proof -
  have h: "CHR 0x00 \<notin> set (replicate 1537 (CHR ''a''))" by simp
  from from_string_to_string [OF h, of rope_init "[]"]
  obtain r where "rope_from_string rope_init (replicate 1537 (CHR ''a'') @ [CHR 0x00]) = Some r"
    "rope_length r = 1537"
    "\<forall>fresh. length fresh = 1537 + 1 \<longrightarrow>
       rope_to_string r fresh = replicate 1537 (CHR ''a'') @ [CHR 0x00]"
    by auto
  then show ?thesis using h by auto
qed

text \<open>
  Claim C5 (delete removes exactly \<open>min len (length - pos)\<close> bytes at \<open>pos\<close>, for every
  buffer), evaluated on the reachable buffer that the insertion of 513 bytes into \<^verbatim>\<open>ab\<close>
  leaves, whose cached length 515 is one more than its 514 bytes. Deleting one byte at
  position 514 lowers the length and removes no byte: the leaves are the same. Deleting
  one byte at position 0 leaves 513 bytes under a cached length of 514, and
  \<^verbatim>\<open>rope_to_string\<close> ends in a byte of its fresh allocation, not in the old byte 514.
\<close>

theorem delete_after_oversize_insert:
  "reachable oversize_rope
   \<and> 514 < rope_length oversize_rope
   \<and> rope_delete oversize_rope 514 1 = Some tail_deleted_rope
   \<and> rope_length tail_deleted_rope = rope_length oversize_rope - 1
   \<and> rope_leaves (root tail_deleted_rope) = rope_leaves (root oversize_rope)
   \<and> rope_delete oversize_rope 0 1 = Some head_deleted_rope
   \<and> rope_to_string head_deleted_rope (replicate 515 (CHR ''!''))
       = replicate 512 (CHR ''x'') @ ''b!'' @ [CHR 0x00]
   \<and> rope_to_string head_deleted_rope (replicate 515 (CHR ''!''))
       \<noteq> drop 1 (butlast (rope_to_string oversize_rope (replicate 516 (CHR ''?'')))) @ [CHR 0x00]"
proof -
  have l: "514 < rope_length oversize_rope" by (simp add: rope_length_def oversize_rope_def)
  have d1: "rope_delete oversize_rope 514 1 = Some tail_deleted_rope"
    by (simp add: rope_delete_def oversize_rope_def tail_deleted_rope_def delete_collapse_def
        rope_node_balance.simps Let_def)
  have l1: "rope_length tail_deleted_rope = rope_length oversize_rope - 1"
    by (simp add: rope_length_def oversize_rope_def tail_deleted_rope_def)
  have lv: "rope_leaves (root tail_deleted_rope) = rope_leaves (root oversize_rope)"
    by (simp add: tail_deleted_rope_def)
  have d2: "rope_delete oversize_rope 0 1 = Some head_deleted_rope"
    by (simp add: rope_delete_def oversize_rope_def head_deleted_rope_def delete_collapse_def
        rope_node_balance.simps Let_def)
  have hc: "rope_content (root head_deleted_rope) = replicate 512 (CHR ''x'') @ ''b''"
    by (simp add: head_deleted_rope_def)
  have r2: "replicate 2 (CHR ''!'') = ''!!''" by (simp add: numeral_2_eq_2)
  have "snd (rope_copy head_deleted_rope 0 (replicate 515 (CHR ''!'')) 514)
      = replicate 512 (CHR ''x'') @ ''b'' @ replicate 2 (CHR ''!'')"
    by (simp add: rope_copy_content hc)
  then have "snd (rope_copy head_deleted_rope 0 (replicate 515 (CHR ''!'')) 514)
      = replicate 512 (CHR ''x'') @ ''b'' @ ''!!''"
    by (simp only: r2)
  then have ts: "rope_to_string head_deleted_rope (replicate 515 (CHR ''!''))
      = replicate 512 (CHR ''x'') @ ''b!'' @ [CHR 0x00]"
    by (simp add: rope_to_string_def head_deleted_rope_def list_update_append)
  let ?got = "replicate 512 (CHR ''x'') @ ''b!'' @ [CHR 0x00]"
  let ?want = "drop 1 (butlast (rope_to_string oversize_rope (replicate 516 (CHR ''?''))))
      @ [CHR 0x00]"
  have want: "?want = replicate 512 (CHR ''x'') @ ''b?'' @ [CHR 0x00]"
    by (simp add: oversize_to_string butlast_append)
  have g: "?got ! 513 = CHR ''!''" by (simp add: nth_append)
  have w: "?want ! 513 = CHR ''?''" by (simp only: want) (simp add: nth_append)
  have ne: "?got \<noteq> ?want"
  proof
    assume "?got = ?want"
    then have "?got ! 513 = ?want ! 513" by (rule arg_cong)
    then show False by (simp only: g w) simp
  qed
  show ?thesis using reachable_oversize_rope l d1 l1 lv d2 ne unfolding ts by blast
qed

text \<open>
  Claim C6 (no empty leaf and no null child after a mutation), evaluated on the insertion
  of one byte at position 0 of a buffer of one full leaf: the leaf is split at offset 0
  and the left part, an empty leaf, stays in the tree of a reachable buffer.
\<close>

theorem insert_leaves_empty_leaf:
  "reachable_in_capacity empty_leaf_rope
   \<and> rope_from_string rope_init (replicate 512 (CHR ''a'') @ [CHR 0x00]) = Some full_rope
   \<and> rope_insert full_rope 0 ''b'' 1 = Some empty_leaf_rope
   \<and> rope_leaves (root empty_leaf_rope) = [[], ''b'', replicate 512 (CHR ''a'')]
   \<and> [] \<in> set (rope_leaves (root empty_leaf_rope))"
proof -
  have fs: "rope_from_string rope_init (replicate 512 (CHR ''a'') @ [CHR 0x00]) = Some full_rope"
    by (simp add: rope_from_string_def strlen_replicate ROPE_NODE_CAPACITY_def
      rope_node_create_leaf_def full_rope_def)
  have nul: "CHR 0x00 \<in> set (replicate 512 (CHR ''a'') @ [CHR 0x00])" by simp
  have rf: "reachable_in_capacity full_rope" by (rule cap_from_string [OF cap_init nul fs])
  have ins: "rope_insert full_rope 0 ''b'' 1 = Some empty_leaf_rope"
    by (simp add: rope_insert_def ROPE_NODE_CAPACITY_def
      rope_node_create_internal_def rope_node_create_leaf_def rope_node_insert.simps
      rope_node_balance.simps full_rope_def empty_leaf_rope_def Let_def)
  have p: "0 \<le> rope_length full_rope" by simp
  have l: "1 \<le> length ''b''" by simp
  have c: "root full_rope = Null \<or> 1 \<le> ROPE_NODE_CAPACITY" by (simp add: ROPE_NODE_CAPACITY_def)
  have re: "reachable_in_capacity empty_leaf_rope" by (rule cap_insert [OF rf p l c ins])
  have lv: "rope_leaves (root empty_leaf_rope) = [[], ''b'', replicate 512 (CHR ''a'')]"
    by (simp add: empty_leaf_rope_def)
  show ?thesis using re fs ins lv by simp
qed

text \<open>
  Claim C7 as stated (insert, delete and copy all route by \<open>pos \<le> weight\<close>) fails at
  \<open>pos = weight\<close>: on the well-formed node \<open>ab_node\<close> of weight 1, the rule of the
  specification sends position 1 to the left child, and \<^verbatim>\<open>rope_node_delete\<close> and
  \<^verbatim>\<open>rope_node_copy\<close> go to the right child with position 0. The byte copied, and the
  byte deleted, is the one of the right child.
\<close>

theorem routing_boundary_counterexample:
  "rope_wf ab_node \<and> \<not> is_leaf ab_node \<and> weight ab_node = 1
   \<and> spec_route 1 (weight ab_node) = GoLeft 1
   \<and> rope_node_delete_route ab_node 1 = GoRight 0
   \<and> rope_node_copy_route ab_node 1 = GoRight 0
   \<and> rope_node_delete_route ab_node 1 \<noteq> spec_route 1 (weight ab_node)
   \<and> rope_node_copy_route ab_node 1 \<noteq> spec_route 1 (weight ab_node)
   \<and> rope_node_copy ab_node 1 ''?'' 1 = (1, ''b'')
   \<and> rope_node_copy (left ab_node) 1 ''?'' 1 = (0, ''?'')
   \<and> rope_node_delete ab_node 1 1 = Some (left ab_node)"
  by (simp add: ab_node_def spec_route_def rope_node_delete_route_def rope_node_copy_route_def
      ROPE_NODE_CAPACITY_def memcpy_def delete_collapse_def Let_def)

text \<open>
  Claim C7, amended. At every internal node of a well-formed tree, insert routes by the
  rule of the specification: left when \<open>pos \<le> weight\<close>, else right with \<open>pos - weight\<close>.
  Delete and copy route by the strict comparison: left when \<open>pos < weight\<close>, else right
  with \<open>pos - weight\<close>; the weight they recompute from the left subtree is the cached one.
\<close>

theorem routing_rules:
  assumes "rope_wf node" "\<not> is_leaf node"
  shows "rope_node_insert_route node pos = spec_route pos (weight node)
     \<and> rope_node_delete_route node pos =
         (if pos < weight node then GoLeft pos else GoRight (pos - weight node))
     \<and> rope_node_copy_route node pos =
         (if pos < weight node then GoLeft pos else GoRight (pos - weight node))"
  using assms
  by (cases node)
     (simp_all add: rope_node_insert_route_def rope_node_delete_route_def
        rope_node_copy_route_def spec_route_def)

theorem routing_rules_witness:
  "rope_wf ab_node \<and> \<not> is_leaf ab_node
   \<and> rope_node_insert_route ab_node 1 = GoLeft 1
   \<and> rope_node_delete_route ab_node 1 = GoRight 0
   \<and> rope_node_copy_route ab_node 1 = GoRight 0
   \<and> rope_node_delete_route ab_node 0 = GoLeft 0"
proof -
  have w: "rope_wf ab_node" by (simp add: ab_node_def ROPE_NODE_CAPACITY_def)
  have i: "\<not> is_leaf ab_node" by (simp add: ab_node_def)
  have wt: "weight ab_node = 1" by (simp add: ab_node_def)
  show ?thesis
    using w i routing_rules [OF w i, of 1] routing_rules [OF w i, of 0]
    by (simp add: wt spec_route_def)
qed

text \<open>
  Claim C8 (copy returns exactly \<open>min len (length - pos)\<close> for \<open>pos\<close> below the length, for
  every buffer), evaluated on the same reachable buffer of cached length 515 and 514
  bytes: at position 514, below the length, copying one byte returns 0 and writes
  nothing, and copying 515 bytes from position 0 returns 514.
\<close>

theorem copy_after_oversize_insert:
  "reachable oversize_rope
   \<and> rope_length oversize_rope = 515
   \<and> rope_copy oversize_rope 514 ''?'' 1 = (0, ''?'')
   \<and> fst (rope_copy oversize_rope 514 ''?'' 1) \<noteq> min 1 (rope_length oversize_rope - 514)
   \<and> rope_copy oversize_rope 0 (replicate 515 (CHR ''?'')) 515
       = (514, ''a'' @ replicate 512 (CHR ''x'') @ ''b?'')"
proof -
  have l: "rope_length oversize_rope = 515" by (simp add: rope_length_def oversize_rope_def)
  have c1: "rope_copy oversize_rope 514 ''?'' 1 = (0, ''?'')"
    by (simp add: rope_copy_content oversize_content)
  have r1: "replicate 1 (CHR ''?'') = ''?''" by simp
  have "rope_copy oversize_rope 0 (replicate 515 (CHR ''?'')) 515
       = (514, ''a'' @ replicate 512 (CHR ''x'') @ ''b'' @ replicate 1 (CHR ''?''))"
    by (simp add: rope_copy_content oversize_content)
  then have c2: "rope_copy oversize_rope 0 (replicate 515 (CHR ''?'')) 515
       = (514, ''a'' @ replicate 512 (CHR ''x'') @ ''b?'')"
    by (simp only: r1) simp
  have ne: "fst (rope_copy oversize_rope 514 ''?'' 1) \<noteq> min 1 (rope_length oversize_rope - 514)"
    unfolding c1 l by simp
  show ?thesis using reachable_oversize_rope l c1 ne c2 by blast
qed

text \<open>
  Claim C9 (\<open>rope_char_at\<close> at an index below the length is that byte of
  \<open>rope_to_string\<close>, for every buffer), evaluated on the same reachable buffer at index
  514: \<open>rope_char_at\<close> returns NUL, and byte 514 of \<open>rope_to_string\<close> is the byte the
  fresh allocation held there.
\<close>

theorem char_at_after_oversize_insert:
  "reachable oversize_rope
   \<and> 514 < rope_length oversize_rope
   \<and> rope_char_at oversize_rope 514 = CHR 0x00
   \<and> rope_to_string oversize_rope (replicate 516 (CHR ''?'')) ! 514 = CHR ''?''
   \<and> rope_char_at oversize_rope 514 \<noteq> rope_to_string oversize_rope (replicate 516 (CHR ''?'')) ! 514"
proof -
  have l: "514 < rope_length oversize_rope" by (simp add: rope_length_def oversize_rope_def)
  have ca: "rope_char_at oversize_rope 514 = CHR 0x00"
    by (simp add: rope_char_at_def rope_copy_content oversize_content)
  have "(''a'' @ replicate 512 (CHR ''x'') @ ''b?'' @ [CHR 0x00]) ! 514 = CHR ''?''"
    by (simp add: nth_append)
  then have ts: "rope_to_string oversize_rope (replicate 516 (CHR ''?'')) ! 514 = CHR ''?''"
    by (simp only: oversize_to_string)
  have ne: "rope_char_at oversize_rope 514
      \<noteq> rope_to_string oversize_rope (replicate 516 (CHR ''?'')) ! 514"
    by (simp only: ca ts) simp
  show ?thesis using reachable_oversize_rope l ca ts ne by blast
qed

text \<open>
  Claim C10. On a buffer whose cached length is not below the sum of its leaf lengths
  (every reachable buffer, by \<open>reachable_weak_inv\<close>; the empty buffer included), for every
  position at or past the length, \<open>rope_char_at\<close> returns the NUL byte and \<open>rope_copy\<close>
  copies nothing: it returns 0 and leaves the storage as it was.
\<close>

theorem rope_char_at_out_of_range:
  assumes "length_covers rope" "rope_length rope \<le> pos"
  shows "rope_char_at rope pos = CHR 0x00 \<and> rope_copy rope pos out len = (0, out)"
proof -
  have "length (rope_content (root rope)) \<le> pos"
    using assms by (simp add: length_covers_def length_content rope_length_def)
  then show ?thesis by (simp add: rope_char_at_def rope_copy_content)
qed

theorem rope_char_at_out_of_range_witness:
  "length_covers hello_rope \<and> rope_length hello_rope \<le> 13
   \<and> rope_char_at hello_rope 13 = CHR 0x00
   \<and> rope_copy hello_rope 13 ''abc'' 3 = (0, ''abc'')
   \<and> length_covers rope_init \<and> rope_length rope_init \<le> 0
   \<and> rope_char_at rope_init 0 = CHR 0x00
   \<and> length_covers oversize_rope \<and> rope_length oversize_rope \<le> 515
   \<and> rope_char_at oversize_rope 515 = CHR 0x00"
proof -
  have h: "length_covers hello_rope"
    by (simp add: length_covers_def hello_rope_def)
  have p: "rope_length hello_rope \<le> 13" by (simp add: rope_length_def hello_rope_def)
  have h0: "length_covers rope_init" by (simp add: length_covers_def rope_init_def)
  have p0: "rope_length rope_init \<le> 0" by (simp add: rope_length_def rope_init_def)
  have h1: "length_covers oversize_rope" by (simp add: length_covers_def oversize_rope_def)
  have p1: "rope_length oversize_rope \<le> 515" by (simp add: rope_length_def oversize_rope_def)
  show ?thesis
    using h p h0 p0 h1 p1 rope_char_at_out_of_range [OF h p, of "''abc''" 3]
      rope_char_at_out_of_range [OF h0 p0, of "[]" 0]
      rope_char_at_out_of_range [OF h1 p1, of "[]" 0]
    by simp
qed

end
